theory Spec2Isabelle
  imports Main "HOL-Library.Word" "HOL-Library.Char_ord" "HOL-Library.List_Lexorder"
    "HOL-Library.Multiset"
begin

section \<open>Log restore client (package restore): data model\<close>

type_synonym uint64 = "64 word"
type_synonym bytes = "8 word list"

text \<open>Go's \<open>error\<close> values that the restore client creates itself or receives from a
  collaborator. \<open>nil\<close> is \<open>None\<close> of \<open>error option\<close>.\<close>

datatype error =
    ErrSyntax                    \<comment> \<open>strconv.ErrSyntax\<close>
  | ErrRange                     \<comment> \<open>strconv.ErrRange\<close>
  | ErrRestoreRTsConstrain       \<comment> \<open>berrors.ErrRestoreRTsConstrain\<close>
  | ErrRestoreSchemaNotExists    \<comment> \<open>berrors.ErrRestoreSchemaNotExists\<close>
  | ErrCollaborator nat          \<comment> \<open>an error returned by storage, decoder, executor, catalog, encoder or ingester\<close>
  | PanicNilPointer              \<comment> \<open>a method call on a table buffer that is not in the map\<close>
  | PanicTypeAssertion           \<comment> \<open>\<open>item.Data.(*cdclog.MessageDDL)\<close> on a row event\<close>

definition tableLogPrefix :: string where "tableLogPrefix = ''t_''"
definition logPrefix :: string where "logPrefix = ''cdclog''"
definition metaFile :: string where "metaFile = ''log.meta''"
definition ddlEventsDir :: string where "ddlEventsDir = ''ddls''"
definition ddlFilePrefix :: string where "ddlFilePrefix = ''ddl''"
definition maxUint64 :: uint64 where "maxUint64 = - 1"

subsection \<open>strings.Split and strconv.ParseUint\<close>

text \<open>\<open>strings.Split(s, ".")\<close> for a one-byte separator: the segments between the
  separators, empty ones included; a string without separator is its only segment.\<close>

fun Split :: "string \<Rightarrow> char \<Rightarrow> string list" where
  "Split [] sep = [[]]"
| "Split (c # cs) sep =
     (if c = sep then [] # Split cs sep
      else case Split cs sep of [] \<Rightarrow> [[c]] | w # ws \<Rightarrow> (c # w) # ws)"

definition isDigit :: "char \<Rightarrow> bool" where
  "isDigit c = (48 \<le> (of_char c :: nat) \<and> (of_char c :: nat) \<le> 57)"

definition digitVal :: "char \<Rightarrow> nat" where
  "digitVal c = of_char c - 48"

text \<open>The digit loop of \<open>strconv.ParseUint(s, 10, 64)\<close>: a byte that is no decimal digit
  is a syntax error, a value past \<open>2^64 - 1\<close> a range error. No sign and no underscore is
  accepted in base 10.\<close>

fun ParseUint_loop :: "nat \<Rightarrow> string \<Rightarrow> error + nat" where
  "ParseUint_loop n [] = Inr n"
| "ParseUint_loop n (c # cs) =
     (if \<not> isDigit c then Inl ErrSyntax
      else if n \<ge> (2 ^ 64 - 1) div 10 + 1 then Inl ErrRange
      else if n * 10 + digitVal c > 2 ^ 64 - 1 then Inl ErrRange
      else ParseUint_loop (n * 10 + digitVal c) cs)"

definition ParseUint :: "string \<Rightarrow> error + uint64" where
  "ParseUint s =
     (if s = [] then Inl ErrSyntax
      else case ParseUint_loop 0 s of Inl e \<Rightarrow> Inl e | Inr n \<Rightarrow> Inr (of_nat n))"

subsection \<open>Events\<close>

text \<open>\<open>model.ActionType\<close>: the kinds the client tells apart, and the others by number.\<close>

datatype ActionType =
    ActionCreateSchema
  | ActionDropSchema
  | ActionCreateTable
  | ActionDropTable
  | ActionModifySchemaCharsetAndCollate
  | ActionOther nat

record MessageDDL =
  Query :: string
  Type :: ActionType

text \<open>\<open>cdclog.SortItem\<close>. The decoder sets \<open>ItemType\<close> and \<open>Data\<close> together, so the
  item type is read off the payload: a \<open>MessageDDL\<close> for \<open>cdclog.DDL\<close>, the row payload
  (opaque bytes here) for \<open>cdclog.RowChanged\<close>.\<close>

datatype ItemData = DDLData MessageDDL | RowData bytes

record SortItem =
  Data :: ItemData
  Schema :: string
  Table :: string
  TS :: uint64

record Pair =
  Key :: bytes
  Val :: bytes

record Range =
  Start :: bytes
  End :: bytes

record LogMeta =
  Names :: "int \<rightharpoonup> string"
  GlobalResolvedTS :: uint64

datatype TableInfo = TableInfo (tblID: int)

text \<open>Modelled from the spec: \<open>cdclog.TableBuffer\<close> is not among the sources. It holds
  the resolved table descriptor (\<open>None\<close> while unresolved) and the pending encoded pairs.\<close>

record TableBuffer =
  tableInfo :: "TableInfo option"
  KvPairs :: "Pair list"

definition IsEmpty :: "TableBuffer \<Rightarrow> bool" where
  "IsEmpty tb = (KvPairs tb = [])"

definition Clear :: "TableBuffer \<Rightarrow> TableBuffer" where
  "Clear tb = tb\<lparr>KvPairs := []\<rparr>"

definition ResetTableInfo :: "TableBuffer \<Rightarrow> TableBuffer" where
  "ResetTableInfo tb = tb\<lparr>tableInfo := None\<rparr>"

definition ReloadMeta :: "TableBuffer \<Rightarrow> TableInfo \<Rightarrow> TableBuffer" where
  "ReloadMeta tb ti = tb\<lparr>tableInfo := Some ti\<rparr>"

definition TableID :: "TableBuffer \<Rightarrow> int" where
  "TableID tb = (case tableInfo tb of None \<Rightarrow> 0 | Some ti \<Rightarrow> tblID ti)"

text \<open>A call the client makes to a collaborator, logged in the order made.\<close>

datatype call =
    CallExecute string            \<comment> \<open>\<open>restoreClient.db.se.Execute(ctx, stmt)\<close>\<close>
  | CallIngest "Pair list" Range  \<comment> \<open>\<open>ingester.writeAndIngestByRange\<close> over the batch, for one range\<close>
  | CallAppend int SortItem       \<comment> \<open>\<open>tableBuffers[tableID].Append(item)\<close>: the row encoder\<close>
  | CallReload                    \<comment> \<open>\<open>dom.Reload()\<close>\<close>
  | CallStartWorker int           \<comment> \<open>\<open>workerPool.ApplyOnErrorGroup\<close> for one table\<close>

text \<open>\<open>LogClient\<close>: the fields the replay reads and writes. \<open>ddlLock\<close> is \<open>True\<close> while
  the mutex is held. \<open>calls\<close> is the log of collaborator calls, oldest first.\<close>

record LogClient =
  ddlLock :: bool
  startTS :: uint64
  endTS :: uint64
  meta :: LogMeta
  tableBuffers :: "int \<rightharpoonup> TableBuffer"
  dropTSMap :: "string \<rightharpoonup> uint64"
  calls :: "call list"

subsection \<open>Time window and file-name filters\<close>

definition maybeTSInRange :: "LogClient \<Rightarrow> uint64 \<Rightarrow> bool" where
  "maybeTSInRange l ts = (ts \<ge> startTS l)"

definition tsInRange :: "LogClient \<Rightarrow> uint64 \<Rightarrow> bool" where
  "tsInRange l ts = (startTS l \<le> ts \<and> ts \<le> endTS l)"

definition shouldFilter :: "LogClient \<Rightarrow> SortItem \<Rightarrow> bool" where
  "shouldFilter l item =
     (case dropTSMap l (Schema item) of
        Some val \<Rightarrow> if val > TS item then True else False
      | None \<Rightarrow> False)"

definition NeedRestoreDDL :: "LogClient \<Rightarrow> string \<Rightarrow> error + bool" where
  "NeedRestoreDDL l fileName =
     (let names = Split fileName (CHR ''.'') in
      if length names \<noteq> 2 then Inr False
      else if names ! 0 \<noteq> ddlFilePrefix then Inr False
      else case ParseUint (names ! 1) of
             Inl err \<Rightarrow> Inl err
           | Inr ts \<Rightarrow>
               (let ts' = maxUint64 - ts in
                if ts' \<le> endTS l then Inr True else Inr False))"

definition NeedRestoreRowChange :: "LogClient \<Rightarrow> string \<Rightarrow> error + bool" where
  "NeedRestoreRowChange l fileName =
     (if fileName = logPrefix then Inr True
      else let names = Split fileName (CHR ''.'') in
        if length names \<noteq> 2 then Inr False
        else if names ! 0 \<noteq> logPrefix then Inr False
        else case ParseUint (names ! 1) of
               Inl err \<Rightarrow> Inl err
             | Inr ts \<Rightarrow> if maybeTSInRange l ts then Inr True else Inr False)"


subsection \<open>Collaborators\<close>

text \<open>\<open>dom.InfoSchema()\<close>: the lookups the client makes in the schema catalog.\<close>

record catalog =
  TableByID :: "int \<rightharpoonup> TableInfo"
  TableByName :: "string \<Rightarrow> string \<Rightarrow> error + TableInfo"
  SchemaByName :: "string \<rightharpoonup> int"

text \<open>What the collaborators answer. None of them is among the sources, so each is a
  parameter; one that acts on the cluster may answer differently as the calls made so far
  (the \<open>call list\<close>) change the cluster.
  \<^item> \<open>Execute\<close>: the SQL executor, \<open>None\<close> for success.
  \<^item> \<open>writeAndIngestByRange\<close>: the ingester on one range of a batch: an error, or the
    unfinished ranges it puts back into the remaining set.
  \<^item> \<open>Append\<close>: the row encoder behind \<open>TableBuffer.Append\<close>: an error, or the pairs of
    the row. \<open>ShouldApply\<close>: the buffer's flush thresholds.
  \<^item> \<open>domReload\<close>, \<open>InfoSchema\<close>: the schema catalog.
  \<^item> \<open>ParseQuoteName\<close>, \<open>NextKey\<close>, \<open>isDataKey\<close>: helpers of packages utils and kv
    (the last is the test of \<open>ClassifyAndAppend\<close> on the marker byte of the key).
  \<^item> \<open>ReadFile\<close>, \<open>WalkDir\<close>: the blob storage. \<open>UnmarshalMeta\<close>: \<open>json.Unmarshal\<close> into
    \<open>LogMeta\<close>. \<open>NewJSONEventBatchDecoder\<close>: the events a DDL file decodes to, an \<open>Inl\<close>
    where \<open>NextEvent\<close> fails.
  \<^item> \<open>tablePullers\<close>: for the DDL files and the client, the tables to restore, each with the
    event sequence of its puller and its fresh buffer (what \<open>collectRowChangeFiles\<close>,
    \<open>cdclog.NewEventPuller\<close> and \<open>cdclog.NewTableBuffer\<close> make of storage and catalog).\<close>

record env =
  Execute :: "call list \<Rightarrow> string \<Rightarrow> error option"
  writeAndIngestByRange :: "call list \<Rightarrow> Pair list \<Rightarrow> Range \<Rightarrow> error + Range list"
  Append :: "call list \<Rightarrow> TableInfo option \<Rightarrow> SortItem \<Rightarrow> error + Pair list"
  ShouldApply :: "TableBuffer \<Rightarrow> bool"
  domReload :: "call list \<Rightarrow> error option"
  InfoSchema :: "call list \<Rightarrow> catalog"
  ParseQuoteName :: "string \<Rightarrow> string \<times> string"
  NextKey :: "bytes \<Rightarrow> bytes"
  isDataKey :: "bytes \<Rightarrow> bool"
  ReadFile :: "string \<Rightarrow> error + string"
  WalkDir :: "string \<Rightarrow> error + string list"
  UnmarshalMeta :: "string \<Rightarrow> error + LogMeta"
  NewJSONEventBatchDecoder :: "string \<Rightarrow> error + (error + SortItem) list"
  tablePullers :: "string list \<Rightarrow> LogClient \<Rightarrow> error + (int \<times> (error + SortItem) list \<times> TableBuffer) list"

definition logCall :: "call \<Rightarrow> LogClient \<Rightarrow> LogClient" where
  "logCall c l = l\<lparr>calls := calls l @ [c]\<rparr>"

subsection \<open>collectDDLFiles\<close>

text \<open>\<open>filepath.Base\<close> with separator \<open>/\<close>.\<close>

definition Base :: "string \<Rightarrow> string" where
  "Base path =
     (if path = [] then ''.''
      else let p = rev (dropWhile (\<lambda>c. c = CHR ''/'') (rev path));
               e = rev (takeWhile (\<lambda>c. c \<noteq> CHR ''/'') (rev p))
           in if e = [] then ''/'' else e)"

text \<open>The callback of \<open>WalkDir\<close> over the listed paths.\<close>

fun collectDDLFiles_walk :: "LogClient \<Rightarrow> string list \<Rightarrow> string list \<Rightarrow> error + string list" where
  "collectDDLFiles_walk l [] ddlFiles = Inr ddlFiles"
| "collectDDLFiles_walk l (path # paths) ddlFiles =
     (case NeedRestoreDDL l (Base path) of
        Inl err \<Rightarrow> Inl err
      | Inr shouldRestore \<Rightarrow>
          collectDDLFiles_walk l paths (if shouldRestore then ddlFiles @ [path] else ddlFiles))"

text \<open>\<open>sort.Sort(sort.Reverse(sort.StringSlice(ddlFiles)))\<close>: descending in the byte
  order of strings.\<close>

definition collectDDLFiles :: "env \<Rightarrow> LogClient \<Rightarrow> error + string list" where
  "collectDDLFiles env l =
     (case WalkDir env ddlEventsDir of
        Inl err \<Rightarrow> Inl err
      | Inr paths \<Rightarrow>
          (case collectDDLFiles_walk l paths [] of
             Inl err \<Rightarrow> Inl err
           | Inr ddlFiles \<Rightarrow> Inr (rev (sort ddlFiles))))"

subsection \<open>doDBDDLJob\<close>

definition isDBRelatedDDL :: "MessageDDL \<Rightarrow> bool" where
  "isDBRelatedDDL ddl =
     (case Type ddl of
        ActionDropSchema \<Rightarrow> True
      | ActionCreateSchema \<Rightarrow> True
      | ActionModifySchemaCharsetAndCollate \<Rightarrow> True
      | _ \<Rightarrow> False)"

definition isDropTable :: "MessageDDL \<Rightarrow> bool" where
  "isDropTable ddl = (Type ddl = ActionDropTable)"

text \<open>The inner loop over the events of one DDL file.\<close>

fun doDBDDLJob_events :: "env \<Rightarrow> (error + SortItem) list \<Rightarrow> LogClient \<Rightarrow> error option \<times> LogClient" where
  "doDBDDLJob_events env [] l = (None, l)"
| "doDBDDLJob_events env (Inl err # rest) l = (Some err, l)"
| "doDBDDLJob_events env (Inr item # rest) l =
     (case Data item of
        RowData _ \<Rightarrow> (Some PanicTypeAssertion, l)
      | DDLData ddl \<Rightarrow>
          if isDBRelatedDDL ddl \<and> tsInRange l (TS item) then
            (case Execute env (calls l) (Query ddl) of
               Some err \<Rightarrow> (Some err, logCall (CallExecute (Query ddl)) l)
             | None \<Rightarrow>
                 (let l1 = logCall (CallExecute (Query ddl)) l;
                      l2 = (if Type ddl = ActionDropSchema
                            then l1\<lparr>dropTSMap := (dropTSMap l1)(Schema item \<mapsto> TS item)\<rparr>
                            else l1)
                  in doDBDDLJob_events env rest l2))
          else doDBDDLJob_events env rest l)"

text \<open>The outer loop over the DDL files.\<close>

fun doDBDDLJob_files :: "env \<Rightarrow> string list \<Rightarrow> LogClient \<Rightarrow> error option \<times> LogClient" where
  "doDBDDLJob_files env [] l = (None, l)"
| "doDBDDLJob_files env (path # paths) l =
     (case ReadFile env path of
        Inl err \<Rightarrow> (Some err, l)
      | Inr data \<Rightarrow>
          (case NewJSONEventBatchDecoder env data of
             Inl err \<Rightarrow> (Some err, l)
           | Inr events \<Rightarrow>
               (case doDBDDLJob_events env events l of
                  (Some err, l1) \<Rightarrow> (Some err, l1)
                | (None, l1) \<Rightarrow> doDBDDLJob_files env paths l1)))"

definition doDBDDLJob :: "env \<Rightarrow> string list \<Rightarrow> LogClient \<Rightarrow> error option \<times> LogClient" where
  "doDBDDLJob env ddls l = (if length ddls = 0 then (None, l) else doDBDDLJob_files env ddls l)"


subsection \<open>writeRows\<close>

text \<open>\<open>bytes.Compare\<close>: lexicographic on unsigned bytes; a proper prefix is smaller.\<close>

fun bytes_Compare :: "bytes \<Rightarrow> bytes \<Rightarrow> int" where
  "bytes_Compare [] [] = 0"
| "bytes_Compare [] (y # ys) = - 1"
| "bytes_Compare (x # xs) [] = 1"
| "bytes_Compare (x # xs) (y # ys) =
     (if x < y then - 1 else if y < x then 1 else bytes_Compare xs ys)"

definition lessKey :: "Pair \<Rightarrow> Pair \<Rightarrow> bool" where
  "lessKey a b = (bytes_Compare (Key a) (Key b) < 0)"

text \<open>\<open>sort.SliceStable\<close>: the sorted arrangement in which elements that are not ordered
  by the comparison \<open>lt\<close> keep their original order. It is computed here by insertion from the right,
  an element going before the first one that is not smaller.\<close>

fun insertStable :: "('a \<Rightarrow> 'a \<Rightarrow> bool) \<Rightarrow> 'a \<Rightarrow> 'a list \<Rightarrow> 'a list" where
  "insertStable lt x [] = [x]"
| "insertStable lt x (y # ys) =
     (if lt y x then y # insertStable lt x ys else x # y # ys)"

definition SliceStable :: "('a \<Rightarrow> 'a \<Rightarrow> bool) \<Rightarrow> 'a list \<Rightarrow> 'a list" where
  "SliceStable lt xs = foldr (insertStable lt) xs []"

text \<open>The loop "remove duplicate keys, and keep the last one": \<open>i\<close> runs over the sorted
  batch, \<open>newKvs\<close> collects the kept pairs; \<open>bytes.Equal\<close> is equality of the keys.\<close>

function removeDup :: "Pair list \<Rightarrow> nat \<Rightarrow> Pair list \<Rightarrow> Pair list" where
  "removeDup kvs i newKvs =
     (if i < length kvs then
        (if i = length kvs - 1 then newKvs @ [kvs ! i]
         else if Key (kvs ! i) = Key (kvs ! (i + 1)) then removeDup kvs (i + 1) newKvs
         else removeDup kvs (i + 1) (newKvs @ [kvs ! i]))
      else newKvs)"
  by pat_completeness auto
termination
  by (relation "measure (\<lambda>(kvs, i, newKvs). length kvs - i)") auto

declare removeDup.simps [simp del]

text \<open>The batch \<open>writeRows\<close> hands to the ingester: sorted, then deduplicated.\<close>

definition writeRows_newKvs :: "Pair list \<Rightarrow> Pair list" where
  "writeRows_newKvs kvs = removeDup (SliceStable lessKey kvs) 0 []"

text \<open>One round of the ingestion loop over the ranges taken from the remaining set. The
  source runs the ranges of a round concurrently in an error group; here they run one after
  another, and the first error ends the round. The result carries the ranges put back.\<close>

fun writeRows_round :: "env \<Rightarrow> Pair list \<Rightarrow> Range list \<Rightarrow> Range list \<Rightarrow> LogClient
    \<Rightarrow> error option \<times> Range list \<times> LogClient" where
  "writeRows_round env newKvs [] remainRange l = (None, remainRange, l)"
| "writeRows_round env newKvs (r # rs) remainRange l =
     (case writeAndIngestByRange env (calls l) newKvs r of
        Inl err \<Rightarrow> (Some err, remainRange, logCall (CallIngest newKvs r) l)
      | Inr unfinished \<Rightarrow>
          writeRows_round env newKvs rs (remainRange @ unfinished) (logCall (CallIngest newKvs r) l))"

text \<open>The loop \<open>for { remain := remainRange.take(); ... }\<close>. It ends when no range
  remains and has no bound on its rounds: \<open>None\<close> is the run that never ends.\<close>

partial_function (option) writeRows_loop :: "env \<Rightarrow> Pair list \<Rightarrow> Range list \<Rightarrow> LogClient
    \<Rightarrow> (error option \<times> LogClient) option" where
  "writeRows_loop env newKvs remain l =
     (if length remain = 0 then Some (None, l)
      else case writeRows_round env newKvs remain [] l of
             (Some err, remainRange, l1) \<Rightarrow> Some (Some err, l1)
           | (None, remainRange, l1) \<Rightarrow> writeRows_loop env newKvs remainRange l1)"

definition writeRows :: "env \<Rightarrow> Pair list \<Rightarrow> LogClient \<Rightarrow> (error option \<times> LogClient) option" where
  "writeRows env kvs l =
     (if length kvs = 0 then Some (None, l)
      else let newKvs = writeRows_newKvs kvs;
               remainRange = [\<lparr>Start = Key (newKvs ! 0),
                               End = NextKey env (Key (newKvs ! (length newKvs - 1)))\<rparr>]
           in writeRows_loop env newKvs remainRange l)"

subsection \<open>reloadTableMeta and applyKVChanges\<close>

text \<open>Where \<open>TableByID\<close> does not find the table, the source returns \<open>errors.Trace(err)\<close>
  with the \<open>err\<close> of the reload, which is \<open>nil\<close> there: the call returns \<open>nil\<close> and leaves
  the buffer as it was.\<close>

definition reloadTableMeta :: "env \<Rightarrow> int \<Rightarrow> SortItem \<Rightarrow> LogClient \<Rightarrow> error option \<times> LogClient" where
  "reloadTableMeta env tableID item l =
     (let l1 = logCall CallReload l in
      case domReload env (calls l) of
        Some err \<Rightarrow> (Some err, l1)
      | None \<Rightarrow>
          (case tableBuffers l1 tableID of
             None \<Rightarrow> (Some PanicNilPointer, l1)
           | Some tb \<Rightarrow>
               (let newTableID = TableID tb;
                    infoSchema = InfoSchema env (calls l1);
                    found =
                      (if newTableID \<noteq> 0 then
                         (case TableByID infoSchema newTableID of
                            None \<Rightarrow> Inl None
                          | Some newTableInfo \<Rightarrow> Inr newTableInfo)
                       else
                         (case TableByName infoSchema (Schema item) (Table item) of
                            Inl err \<Rightarrow> Inl (Some err)
                          | Inr newTableInfo \<Rightarrow> Inr newTableInfo))
                in case found of
                     Inl r \<Rightarrow> (r, l1)
                   | Inr newTableInfo \<Rightarrow>
                       (case SchemaByName infoSchema (Schema item) of
                          None \<Rightarrow> (Some ErrRestoreSchemaNotExists, l1)
                        | Some dbID \<Rightarrow>
                            (None, l1\<lparr>tableBuffers :=
                               (tableBuffers l1)(tableID \<mapsto> ReloadMeta tb newTableInfo)\<rparr>)))))"

definition applyKVChanges :: "env \<Rightarrow> int \<Rightarrow> LogClient \<Rightarrow> (error option \<times> LogClient) option" where
  "applyKVChanges env tableID l =
     (case tableBuffers l tableID of
        None \<Rightarrow> Some (Some PanicNilPointer, l)
      | Some tableBuffer \<Rightarrow>
          if IsEmpty tableBuffer then Some (None, l)
          else
            (let dataKVs = filter (\<lambda>p. isDataKey env (Key p)) (KvPairs tableBuffer);
                 indexKVs = filter (\<lambda>p. \<not> isDataKey env (Key p)) (KvPairs tableBuffer)
             in case writeRows env dataKVs l of
                  None \<Rightarrow> None
                | Some (Some err, l1) \<Rightarrow> Some (Some err, l1)
                | Some (None, l1) \<Rightarrow>
                    (case writeRows env indexKVs l1 of
                       None \<Rightarrow> None
                     | Some (Some err, l2) \<Rightarrow> Some (Some err, l2)
                     | Some (None, l2) \<Rightarrow>
                         Some (None, l2\<lparr>tableBuffers :=
                           (tableBuffers l2)(tableID \<mapsto> Clear tableBuffer)\<rparr>))))"

subsection \<open>restoreTableFromPuller\<close>

text \<open>What one pass through the body of the loop \<open>for { ... }\<close> ends with: \<open>continue\<close>
  (or the end of the body), or \<open>return\<close> with the error.\<close>

datatype control = Continue | Return "error option"

text \<open>The branch \<open>case cdclog.DDL\<close>. \<open>ddlLock.Lock()\<close> on a mutex that is held does not
  return.\<close>

definition restoreDDLEvent :: "env \<Rightarrow> int \<Rightarrow> SortItem \<Rightarrow> MessageDDL \<Rightarrow> LogClient
    \<Rightarrow> (control \<times> LogClient) option" where
  "restoreDDLEvent env tableID item ddl l =
     (let name = (case Names (meta l) tableID of None \<Rightarrow> [] | Some n \<Rightarrow> n);
          schema = fst (ParseQuoteName env name);
          table = snd (ParseQuoteName env name)
      in
      if \<not> (schema = Schema item \<and> (table = Table item \<or> isDBRelatedDDL ddl)) then
        Some (Continue, l)
      else if isDBRelatedDDL ddl then Some (Continue, l)
      else
        (case applyKVChanges env tableID l of
           None \<Rightarrow> None
         | Some (Some err, l1) \<Rightarrow> Some (Return (Some err), l1)
         | Some (None, l1) \<Rightarrow>
             if ddlLock l1 then None
             else
               (let l2 = l1\<lparr>ddlLock := True\<rparr>;
                    l3 = logCall (CallExecute (''use '' @ Schema item)) l2
                in case Execute env (calls l2) (''use '' @ Schema item) of
                     Some err \<Rightarrow> Some (Return (Some err), l3)
                   | None \<Rightarrow>
                       (let l4 = logCall (CallExecute (Query ddl)) l3
                        in case Execute env (calls l3) (Query ddl) of
                             Some err \<Rightarrow> Some (Return (Some err), l4)
                           | None \<Rightarrow>
                               (let l5 = l4\<lparr>ddlLock := False\<rparr> in
                                if isDropTable ddl then
                                  (case tableBuffers l5 tableID of
                                     None \<Rightarrow> Some (Return (Some PanicNilPointer), l5)
                                   | Some tb \<Rightarrow>
                                       Some (Continue, l5\<lparr>tableBuffers :=
                                         (tableBuffers l5)(tableID \<mapsto> ResetTableInfo tb)\<rparr>))
                                else
                                  (case reloadTableMeta env tableID item l5 of
                                     (Some err, l6) \<Rightarrow> Some (Return (Some err), l6)
                                   | (None, l6) \<Rightarrow> Some (Continue, l6)))))))"

text \<open>The branch \<open>case cdclog.RowChanged\<close>.\<close>

definition restoreRowEvent :: "env \<Rightarrow> int \<Rightarrow> SortItem \<Rightarrow> LogClient
    \<Rightarrow> (control \<times> LogClient) option" where
  "restoreRowEvent env tableID item l =
     (case tableBuffers l tableID of
        None \<Rightarrow> Some (Return (Some PanicNilPointer), l)
      | Some tb \<Rightarrow>
          (case (if tableInfo tb = None then reloadTableMeta env tableID item l else (None, l)) of
             (Some err, l1) \<Rightarrow> Some (Return (Some err), l1)
           | (None, l1) \<Rightarrow>
               (case tableBuffers l1 tableID of
                  None \<Rightarrow> Some (Return (Some PanicNilPointer), l1)
                | Some tb1 \<Rightarrow>
                    (let l2 = logCall (CallAppend tableID item) l1
                     in case Append env (calls l1) (tableInfo tb1) item of
                          Inl err \<Rightarrow> Some (Return (Some err), l2)
                        | Inr pairs \<Rightarrow>
                            (let tb2 = tb1\<lparr>KvPairs := KvPairs tb1 @ pairs\<rparr>;
                                 l3 = l2\<lparr>tableBuffers := (tableBuffers l2)(tableID \<mapsto> tb2)\<rparr>
                             in if ShouldApply env tb2 then
                                  (case applyKVChanges env tableID l3 of
                                     None \<Rightarrow> None
                                   | Some (Some err, l4) \<Rightarrow> Some (Return (Some err), l4)
                                   | Some (None, l4) \<Rightarrow> Some (Continue, l4))
                                else Some (Continue, l3))))))"

text \<open>The body of the loop for one pulled event.\<close>

definition restoreEvent :: "env \<Rightarrow> int \<Rightarrow> SortItem \<Rightarrow> LogClient \<Rightarrow> (control \<times> LogClient) option" where
  "restoreEvent env tableID item l =
     (if startTS l > TS item then Some (Continue, l)
      else if endTS l < TS item then
        (case applyKVChanges env tableID l of
           None \<Rightarrow> None
         | Some (r, l1) \<Rightarrow> Some (Return r, l1))
      else if shouldFilter l item then
        (case applyKVChanges env tableID l of
           None \<Rightarrow> None
         | Some (Some err, l1) \<Rightarrow> Some (Return (Some err), l1)
         | Some (None, l1) \<Rightarrow> Some (Continue, l1))
      else
        (case Data item of
           DDLData ddl \<Rightarrow> restoreDDLEvent env tableID item ddl l
         | RowData _ \<Rightarrow> restoreRowEvent env tableID item l))"

text \<open>The puller is the sequence of what \<open>PullOneEvent\<close> returns: an error or an event;
  at its end the puller returns the \<open>nil\<close> item. \<open>None\<close> is the run that does not return.\<close>

fun restoreTableFromPuller :: "env \<Rightarrow> int \<Rightarrow> (error + SortItem) list \<Rightarrow> LogClient
    \<Rightarrow> (error option \<times> LogClient) option" where
  "restoreTableFromPuller env tableID [] l = applyKVChanges env tableID l"
| "restoreTableFromPuller env tableID (Inl err # puller) l = Some (Some err, l)"
| "restoreTableFromPuller env tableID (Inr item # puller) l =
     (case restoreEvent env tableID item l of
        None \<Rightarrow> None
      | Some (Return r, l1) \<Rightarrow> Some (r, l1)
      | Some (Continue, l1) \<Rightarrow> restoreTableFromPuller env tableID puller l1)"

subsection \<open>restoreTables and RestoreLogData\<close>

text \<open>The source hands one worker per puller to the pool and the error group, and
  \<open>eg.Wait()\<close> returns when every worker has returned, with the first error of the group.
  Here the workers run one after another in the order of the list, as with a pool of one
  worker: every worker is started and runs to its end, also after another one has failed,
  and the result is the error of the first worker that failed. A worker that does not
  return keeps \<open>Wait\<close> from returning. What a cancelled context makes \<open>PullOneEvent\<close> return
  is part of the sequence of the puller.\<close>

fun restoreTables :: "env \<Rightarrow> (int \<times> (error + SortItem) list) list \<Rightarrow> LogClient
    \<Rightarrow> (error option \<times> LogClient) option" where
  "restoreTables env [] l = Some (None, l)"
| "restoreTables env ((tableID, puller) # eventPullers) l =
     (case restoreTableFromPuller env tableID puller (logCall (CallStartWorker tableID) l) of
        None \<Rightarrow> None
      | Some (r, l1) \<Rightarrow>
          (case restoreTables env eventPullers l1 of
             None \<Rightarrow> None
           | Some (r', l2) \<Rightarrow> Some (case r of Some err \<Rightarrow> Some err | None \<Rightarrow> r', l2)))"

text \<open>\<open>RestoreLogData\<close> from "collect ddl files" on.\<close>

definition RestoreLogData_replay :: "env \<Rightarrow> LogClient \<Rightarrow> (error option \<times> LogClient) option" where
  "RestoreLogData_replay env l =
     (case collectDDLFiles env l of
        Inl err \<Rightarrow> Some (Some err, l)
      | Inr ddlFiles \<Rightarrow>
          (case doDBDDLJob env ddlFiles l of
             (Some err, l1) \<Rightarrow> Some (Some err, l1)
           | (None, l1) \<Rightarrow>
               (case tablePullers env ddlFiles l1 of
                  Inl err \<Rightarrow> Some (Some err, l1)
                | Inr tables \<Rightarrow>
                    restoreTables env (map (\<lambda>(tableID, puller, tb). (tableID, puller)) tables)
                      (l1\<lparr>tableBuffers :=
                         foldl (\<lambda>m (tableID, puller, tb). m(tableID \<mapsto> tb)) (tableBuffers l1) tables\<rparr>))))"

definition RestoreLogData :: "env \<Rightarrow> LogClient \<Rightarrow> (error option \<times> LogClient) option" where
  "RestoreLogData env l =
     (case ReadFile env metaFile of
        Inl err \<Rightarrow> Some (Some err, l)
      | Inr data \<Rightarrow>
          (case UnmarshalMeta env data of
             Inl err \<Rightarrow> Some (Some err, l)
           | Inr m \<Rightarrow>
               (let l1 = l\<lparr>meta := m\<rparr> in
                if startTS l1 > GlobalResolvedTS (meta l1) then Some (Some ErrRestoreRTsConstrain, l1)
                else
                  (let l2 = (if endTS l1 > GlobalResolvedTS (meta l1)
                             then l1\<lparr>endTS := GlobalResolvedTS (meta l1)\<rparr> else l1)
                   in RestoreLogData_replay env l2))))"


section \<open>Row encoder (package kv, sql2kv.go)\<close>

text \<open>\<open>types.Datum\<close>: the null datum, the integer datums the encoder builds itself, and
  the others by number.\<close>

datatype Datum = NullDatum | IntDatum int | UintDatum nat | OtherDatum nat

datatype FieldType =
    TypeFloat | TypeDouble | TypeTiny | TypeShort | TypeInt24 | TypeLong | TypeLonglong | TypeOther nat

datatype AllocatorType = AutoRandomType | AutoIncrementType | RowIDAllocType

text \<open>\<open>table.Column\<close>: the position \<open>Offset\<close> in the row, the parsed expression of a
  generated column (\<open>None\<close> for \<open>nil\<close>), and what the encoder reads of the column info.\<close>

record Column =
  Offset :: int
  GeneratedExpr :: "nat option"
  ColID :: int
  IsGenerated :: bool
  HasAutoIncrementFlag :: bool
  HasUnsignedFlag :: bool
  FieldTp :: FieldType

record genCol =
  index :: nat
  expr :: nat

text \<open>The collaborators of the encoder: the expression rewriter and evaluator, the casts
  and defaults of package table, the allocators, and \<open>AddRecord\<close>, which turns the record
  into pairs. \<open>GetInt64\<close> and \<open>GetFloat64Round\<close> read a datum; \<open>IncrementalMask\<close> is the
  mask of the shard format.\<close>

record kvenv =
  RewriteAstExpr :: "nat \<Rightarrow> error + nat"
  Eval :: "nat \<Rightarrow> Datum list \<Rightarrow> error + Datum"
  CastValue :: "Datum \<Rightarrow> Column \<Rightarrow> error + Datum"
  CastExtraHandle :: "Datum \<Rightarrow> error + Datum"
  CheckNotNull :: "Column \<Rightarrow> Datum \<Rightarrow> bool"
  HandleBadNull :: "Column \<Rightarrow> Datum \<Rightarrow> error + Datum"
  GetColDefaultValue :: "Column \<Rightarrow> error + Datum"
  GetMinValue :: "Column \<Rightarrow> Datum"
  GetInt64 :: "Datum \<Rightarrow> int"
  GetFloat64Round :: "Datum \<Rightarrow> int"
  MaskIncremental :: "int \<Rightarrow> int"
  Rebase :: "AllocatorType \<Rightarrow> int \<Rightarrow> error option"
  AddRecord :: "Datum list \<Rightarrow> error + Pair list"

record tableKVEncoder =
  Cols :: "Column list"
  ContainsAutoRandomBits :: bool
  TableHasAutoRowID :: bool
  autoRandomColID :: int
  genCols :: "genCol list"
  autoIDFn :: "int \<Rightarrow> int"

text \<open>The loop of \<open>collectGeneratedColumns\<close> that rewrites the expression of each generated
  column, with \<open>i\<close> the index of the head of the remaining columns.\<close>

fun collectGeneratedColumns_loop :: "kvenv \<Rightarrow> Column list \<Rightarrow> nat \<Rightarrow> genCol list \<Rightarrow> error + genCol list" where
  "collectGeneratedColumns_loop env [] i gcs = Inr gcs"
| "collectGeneratedColumns_loop env (col # cols) i gcs =
     (case GeneratedExpr col of
        None \<Rightarrow> collectGeneratedColumns_loop env cols (i + 1) gcs
      | Some ast \<Rightarrow>
          (case RewriteAstExpr env ast of
             Inl err \<Rightarrow> Inl err
           | Inr e \<Rightarrow> collectGeneratedColumns_loop env cols (i + 1) (gcs @ [\<lparr>index = i, expr = e\<rparr>])))"

text \<open>\<open>slices.SortFunc\<close> orders by the comparison; it does not specify the order of
  elements that the comparison does not separate, which the model keeps as it was.\<close>

definition SortFunc :: "('a \<Rightarrow> 'a \<Rightarrow> bool) \<Rightarrow> 'a list \<Rightarrow> 'a list" where
  "SortFunc lt xs = foldr (insertStable lt) xs []"

definition collectGeneratedColumns :: "kvenv \<Rightarrow> Column list \<Rightarrow> error + genCol list" where
  "collectGeneratedColumns env cols =
     (if \<not> list_ex (\<lambda>col. GeneratedExpr col \<noteq> None) cols then Inr []
      else case collectGeneratedColumns_loop env cols 0 [] of
             Inl err \<Rightarrow> Inl err
           | Inr gcs \<Rightarrow>
               Inr (SortFunc (\<lambda>i j. Offset (cols ! index i) < Offset (cols ! index j)) gcs))"

text \<open>\<open>evaluateGeneratedColumns\<close>. The row the expressions are evaluated on is kept equal
  to the record (\<open>mutRow.SetDatum\<close> and \<open>record[gc.index] = value\<close>). The result carries the
  failing column with the error, the record, and the calls of \<open>Eval\<close> in the order made,
  each with the index of its column and the record it was given.\<close>

fun evaluateGeneratedColumns :: "kvenv \<Rightarrow> Datum list \<Rightarrow> Column list \<Rightarrow> genCol list
    \<Rightarrow> (nat \<times> Datum list) list \<Rightarrow> (nat \<times> error) option \<times> Datum list \<times> (nat \<times> Datum list) list" where
  "evaluateGeneratedColumns env recd cols [] evals = (None, recd, evals)"
| "evaluateGeneratedColumns env recd cols (gc # gcs) evals =
     (case Eval env (expr gc) recd of
        Inl err \<Rightarrow> (Some (index gc, err), recd, evals @ [(index gc, recd)])
      | Inr evaluated \<Rightarrow>
          (case CastValue env evaluated (cols ! index gc) of
             Inl err \<Rightarrow> (Some (index gc, err), recd, evals @ [(index gc, recd)])
           | Inr val \<Rightarrow>
               evaluateGeneratedColumns env (recd[index gc := val]) cols gcs
                 (evals @ [(index gc, recd)])))"

definition isAutoRandomCol :: "tableKVEncoder \<Rightarrow> Column \<Rightarrow> bool" where
  "isAutoRandomCol kvcodec col = (ContainsAutoRandomBits kvcodec \<and> ColID col = autoRandomColID kvcodec)"

definition isAutoIncCol :: "Column \<Rightarrow> bool" where
  "isAutoIncCol col = HasAutoIncrementFlag col"

text \<open>\<open>uint64(realRowID)\<close>.\<close>

definition uint64_of_int64 :: "int \<Rightarrow> nat" where
  "uint64_of_int64 i = nat (i mod 2 ^ 64)"

definition getActualDatum :: "kvenv \<Rightarrow> tableKVEncoder \<Rightarrow> int \<Rightarrow> nat \<Rightarrow> Datum option \<Rightarrow> error + Datum" where
  "getActualDatum env kvcodec rowID colIndex inputDatum =
     (let col = Cols kvcodec ! colIndex;
          special = (\<lambda>isBadNullValue val.
            if isAutoIncCol col then CastValue env (IntDatum rowID) col
            else if isAutoRandomCol kvcodec col then
              (let realRowID = autoIDFn kvcodec rowID
               in CastValue env
                    (if HasUnsignedFlag col then UintDatum (uint64_of_int64 realRowID)
                     else IntDatum realRowID) col)
            else if IsGenerated col then Inr (GetMinValue env col)
            else if isBadNullValue then HandleBadNull env col val
            else GetColDefaultValue env col)
      in case inputDatum of
           None \<Rightarrow> special False NullDatum
         | Some d \<Rightarrow>
             (case CastValue env d col of
                Inl err \<Rightarrow> Inl err
              | Inr val \<Rightarrow> if CheckNotNull env col val then Inr val else special True val))"

datatype kvpanic = PanicIndexOutOfRange | PanicUnsupportedAutoIncrement

text \<open>A failure of \<open>Encode\<close>: an error value, or a panic of the Go runtime.\<close>

datatype encodeFailure = EncodeError error | EncodePanic kvpanic

definition getAutoRecordID :: "kvenv \<Rightarrow> Datum \<Rightarrow> Column \<Rightarrow> encodeFailure + int" where
  "getAutoRecordID env d target =
     (case FieldTp target of
        TypeFloat \<Rightarrow> Inr (GetFloat64Round env d)
      | TypeDouble \<Rightarrow> Inr (GetFloat64Round env d)
      | TypeTiny \<Rightarrow> Inr (GetInt64 env d)
      | TypeShort \<Rightarrow> Inr (GetInt64 env d)
      | TypeInt24 \<Rightarrow> Inr (GetInt64 env d)
      | TypeLong \<Rightarrow> Inr (GetInt64 env d)
      | TypeLonglong \<Rightarrow> Inr (GetInt64 env d)
      | TypeOther n \<Rightarrow> Inl (EncodePanic PanicUnsupportedAutoIncrement))"

text \<open>The datum of the input row for column \<open>i\<close>: \<open>row[j]\<close> for \<open>j = columnPermutation[i]\<close>
  where \<open>j\<close> is an index of the row.\<close>

definition theDatum :: "Datum list \<Rightarrow> int list \<Rightarrow> nat \<Rightarrow> Datum option" where
  "theDatum row columnPermutation i =
     (let j = columnPermutation ! i
      in if j \<ge> 0 \<and> j < int (length row) then Some (row ! nat j) else None)"

text \<open>The loop \<open>for i, col := range cols\<close> of \<open>Encode\<close> over the indices that remain.\<close>

fun Encode_cols :: "kvenv \<Rightarrow> tableKVEncoder \<Rightarrow> Datum list \<Rightarrow> int \<Rightarrow> int list \<Rightarrow> nat list
    \<Rightarrow> Datum list \<Rightarrow> encodeFailure + Datum list" where
  "Encode_cols env kvcodec row rowID columnPermutation [] recd = Inr recd"
| "Encode_cols env kvcodec row rowID columnPermutation (i # is) recd =
     (if i \<ge> length columnPermutation then Inl (EncodePanic PanicIndexOutOfRange)
      else
        (case getActualDatum env kvcodec rowID i (theDatum row columnPermutation i) of
           Inl err \<Rightarrow> Inl (EncodeError err)
         | Inr val \<Rightarrow>
             (case (if isAutoRandomCol kvcodec (Cols kvcodec ! i)
                    then Rebase env AutoRandomType (MaskIncremental env (GetInt64 env val))
                    else None) of
                Some err \<Rightarrow> Inl (EncodeError err)
              | None \<Rightarrow>
                  (if isAutoIncCol (Cols kvcodec ! i) then
                     (case getAutoRecordID env val (Cols kvcodec ! i) of
                        Inl f \<Rightarrow> Inl f
                      | Inr recordID \<Rightarrow>
                          (case Rebase env AutoIncrementType recordID of
                             Some err \<Rightarrow> Inl (EncodeError err)
                           | None \<Rightarrow>
                               Encode_cols env kvcodec row rowID columnPermutation is (recd @ [val])))
                   else Encode_cols env kvcodec row rowID columnPermutation is (recd @ [val])))))"

text \<open>The branch \<open>if common.TableHasAutoRowID(meta)\<close>: the row id appended to the record.\<close>

definition Encode_rowID :: "kvenv \<Rightarrow> tableKVEncoder \<Rightarrow> Datum list \<Rightarrow> int \<Rightarrow> int list
    \<Rightarrow> Datum list \<Rightarrow> encodeFailure + Datum list" where
  "Encode_rowID env kvcodec row rowID columnPermutation recd =
     (if \<not> TableHasAutoRowID kvcodec then Inr recd
      else if length (Cols kvcodec) \<ge> length columnPermutation then Inl (EncodePanic PanicIndexOutOfRange)
      else
        (let j = columnPermutation ! length (Cols kvcodec);
             fromRow = (j \<ge> 0 \<and> j < int (length row));
             cast = (if fromRow then CastExtraHandle env (row ! nat j)
                     else Inr (IntDatum (autoIDFn kvcodec rowID)))
         in case cast of
              Inl err \<Rightarrow> Inl (EncodeError err)
            | Inr val \<Rightarrow>
                (let rowValue = (if fromRow then GetInt64 env val else rowID)
                 in case Rebase env RowIDAllocType rowValue of
                      Some err \<Rightarrow> Inl (EncodeError err)
                    | None \<Rightarrow> Inr (recd @ [val]))))"

text \<open>\<open>Encode\<close>: the pairs of the row or the failure, and the calls of \<open>Eval\<close> made. The
  record starts empty (\<open>recordCache\<close> is kept as \<open>record[:0]\<close>).\<close>

definition Encode :: "kvenv \<Rightarrow> tableKVEncoder \<Rightarrow> Datum list \<Rightarrow> int \<Rightarrow> int list
    \<Rightarrow> (encodeFailure + Pair list) \<times> (nat \<times> Datum list) list" where
  "Encode env kvcodec row rowID columnPermutation =
     (case Encode_cols env kvcodec row rowID columnPermutation [0..<length (Cols kvcodec)] [] of
        Inl f \<Rightarrow> (Inl f, [])
      | Inr recd \<Rightarrow>
          (case Encode_rowID env kvcodec row rowID columnPermutation recd of
             Inl f \<Rightarrow> (Inl f, [])
           | Inr recd1 \<Rightarrow>
               (case (if length (genCols kvcodec) > 0
                      then evaluateGeneratedColumns env recd1 (Cols kvcodec) (genCols kvcodec) []
                      else (None, recd1, [])) of
                  (Some (errCol, err), recd2, evals) \<Rightarrow> (Inl (EncodeError err), evals)
                | (None, recd2, evals) \<Rightarrow>
                    (case AddRecord env recd2 of
                       Inl err \<Rightarrow> (Inl (EncodeError err), evals)
                     | Inr kvPairs \<Rightarrow> (Inr kvPairs, evals)))))"

text \<open>\<open>NewTableKVEncoder\<close>, as far as the generated columns go: the encoder of a table
  holds the generated columns that \<open>collectGeneratedColumns\<close> returns for its columns.\<close>

definition NewTableKVEncoder :: "kvenv \<Rightarrow> tableKVEncoder \<Rightarrow> error + tableKVEncoder" where
  "NewTableKVEncoder env tbl =
     (case collectGeneratedColumns env (Cols tbl) of
        Inl err \<Rightarrow> Inl err
      | Inr gcs \<Rightarrow> Inr (tbl\<lparr>genCols := gcs\<rparr>))"

section \<open>Vocabulary of the proofs\<close>

text \<open>Kinds of calls, and how a state \<open>l'\<close> reached from \<open>l\<close> relates to it: with
  \<open>onlyCalls P\<close> nothing but the call log has changed, by calls that satisfy \<open>P\<close>; with
  \<open>replayStep P\<close> the time window, the meta data and the drop fences are the same and
  the log has grown by calls that satisfy \<open>P\<close>.\<close>

definition isIngest :: "call \<Rightarrow> bool" where
  "isIngest c = (case c of CallIngest kvs r \<Rightarrow> True | _ \<Rightarrow> False)"

definition onlyCalls :: "(call \<Rightarrow> bool) \<Rightarrow> LogClient \<Rightarrow> LogClient \<Rightarrow> bool" where
  "onlyCalls P l l' = (\<exists>cs. l' = l\<lparr>calls := calls l @ cs\<rparr> \<and> list_all P cs)"

definition replayStep :: "(call \<Rightarrow> bool) \<Rightarrow> LogClient \<Rightarrow> LogClient \<Rightarrow> bool" where
  "replayStep P l l' =
     (startTS l' = startTS l \<and> endTS l' = endTS l \<and> meta l' = meta l
      \<and> dropTSMap l' = dropTSMap l \<and> (\<exists>cs. calls l' = calls l @ cs \<and> list_all P cs))"

text \<open>The calls one pass through the loop body may make for the event \<open>item\<close> of table \<open>t\<close>.\<close>

definition ddlCall :: "SortItem \<Rightarrow> MessageDDL \<Rightarrow> call \<Rightarrow> bool" where
  "ddlCall item ddl c =
     (isIngest c \<or> c = CallReload \<or> c = CallExecute (''use '' @ Schema item) \<or> c = CallExecute (Query ddl))"

definition rowCall :: "int \<Rightarrow> SortItem \<Rightarrow> call \<Rightarrow> bool" where
  "rowCall t item c = (isIngest c \<or> c = CallReload \<or> c = CallAppend t item)"

definition appendAllowed :: "LogClient \<Rightarrow> call \<Rightarrow> bool" where
  "appendAllowed l c =
     (case c of CallAppend t item \<Rightarrow> tsInRange l (TS item) \<and> \<not> shouldFilter l item | _ \<Rightarrow> True)"


text \<open>For \<open>doDBDDLJob\<close>: the events a DDL file decodes to (none where reading or decoding
  fails), the statements of the database-level events of a sequence whose commitTS is
  inside the window, in the order of the sequence, and two clients with the same window.\<close>

definition eventsOf :: "env \<Rightarrow> string \<Rightarrow> (error + SortItem) list" where
  "eventsOf env path =
     (case ReadFile env path of
        Inl err \<Rightarrow> []
      | Inr data \<Rightarrow> (case NewJSONEventBatchDecoder env data of Inl err \<Rightarrow> [] | Inr events \<Rightarrow> events))"

fun inWindowDBQueries :: "LogClient \<Rightarrow> (error + SortItem) list \<Rightarrow> string list" where
  "inWindowDBQueries l [] = []"
| "inWindowDBQueries l (Inl err # events) = inWindowDBQueries l events"
| "inWindowDBQueries l (Inr item # events) =
     (case Data item of
        DDLData ddl \<Rightarrow>
          if isDBRelatedDDL ddl \<and> tsInRange l (TS item)
          then Query ddl # inWindowDBQueries l events
          else inWindowDBQueries l events
      | RowData x \<Rightarrow> inWindowDBQueries l events)"

definition sameWindow :: "LogClient \<Rightarrow> LogClient \<Rightarrow> bool" where
  "sameWindow l l' = (startTS l' = startTS l \<and> endTS l' = endTS l \<and> meta l' = meta l)"


text \<open>The indices of the generated columns of a table, ascending.\<close>

definition genIndices :: "Column list \<Rightarrow> nat list" where
  "genIndices cols = filter (\<lambda>k. GeneratedExpr (cols ! k) \<noteq> None) [0..<length cols]"

text \<open>Where pairs come from. \<open>pairsFrom\<close> are the pairs pending in the buffer of the table
  at the start of a worker, and the pairs the row encoder makes for the events of the
  puller that are inside the window and not below the fence of their schema. With
  \<open>ingestedFrom S\<close> a call hands only pairs of \<open>S\<close> to the ingester; with \<open>bufferedFrom S\<close>
  the buffer of the table holds only pairs of \<open>S\<close>.\<close>

definition ingestedFrom :: "Pair set \<Rightarrow> call \<Rightarrow> bool" where
  "ingestedFrom S c = (case c of CallIngest kvs r \<Rightarrow> set kvs \<subseteq> S | _ \<Rightarrow> True)"

definition bufferedFrom :: "Pair set \<Rightarrow> int \<Rightarrow> LogClient \<Rightarrow> bool" where
  "bufferedFrom S t l = (case tableBuffers l t of None \<Rightarrow> True | Some tb \<Rightarrow> set (KvPairs tb) \<subseteq> S)"

definition pairsFrom :: "env \<Rightarrow> LogClient \<Rightarrow> int \<Rightarrow> (error + SortItem) list \<Rightarrow> Pair set" where
  "pairsFrom env l t puller =
     {p. (\<exists>tb. tableBuffers l t = Some tb \<and> p \<in> set (KvPairs tb))
       \<or> (\<exists>item cs ti pairs. Inr item \<in> set puller \<and> tsInRange l (TS item) \<and> \<not> shouldFilter l item
             \<and> Append env cs ti item = Inr pairs \<and> p \<in> set pairs)}"

section \<open>Example inputs\<close>

text \<open>Following the spec's words, for comparison with the loop of the source: "for equal
  adjacent keys, keep the last occurrence".\<close>

fun keepLastOfRun :: "Pair list \<Rightarrow> Pair list" where
  "keepLastOfRun [] = []"
| "keepLastOfRun [x] = [x]"
| "keepLastOfRun (x # y # ys) =
     (if Key x = Key y then keepLastOfRun (y # ys) else x # keepLastOfRun (y # ys))"

definition k1 :: bytes where "k1 = [107, 49]"
definition v1 :: bytes where "v1 = [118, 49]"
definition v2 :: bytes where "v2 = [118, 50]"


definition exampleClient :: LogClient where
  "exampleClient =
     \<lparr>ddlLock = False, startTS = 100, endTS = 200,
      meta = \<lparr>Names = [1 \<mapsto> ''test.t1''], GlobalResolvedTS = 300\<rparr>,
      tableBuffers = [1 \<mapsto> \<lparr>tableInfo = Some (TableInfo 7), KvPairs = []\<rparr>],
      dropTSMap = Map.empty, calls = []\<rparr>"

definition exampleCatalog :: catalog where
  "exampleCatalog =
     \<lparr>TableByID = [7 \<mapsto> TableInfo 7],
      TableByName = (\<lambda>schema table. Inr (TableInfo 7)),
      SchemaByName = [''test'' \<mapsto> 1]\<rparr>"

definition exampleEnv :: env where
  "exampleEnv =
     \<lparr>Execute = (\<lambda>cs stmt. None),
      writeAndIngestByRange = (\<lambda>cs kvs r. Inr []),
      Append = (\<lambda>cs ti item. Inr [\<lparr>Key = k1, Val = v1\<rparr>]),
      ShouldApply = (\<lambda>tb. False),
      domReload = (\<lambda>cs. None),
      InfoSchema = (\<lambda>cs. exampleCatalog),
      ParseQuoteName = (\<lambda>name. (''test'', ''t1'')),
      NextKey = (\<lambda>k. k @ [0]),
      isDataKey = (\<lambda>k. True),
      ReadFile = (\<lambda>path. Inr path),
      WalkDir = (\<lambda>dir. Inr []),
      UnmarshalMeta = (\<lambda>data. Inr \<lparr>Names = [1 \<mapsto> ''test.t1''], GlobalResolvedTS = 300\<rparr>),
      NewJSONEventBatchDecoder = (\<lambda>data. Inr []),
      tablePullers = (\<lambda>ddlFiles l. Inr [])\<rparr>"

definition exampleRow :: "uint64 \<Rightarrow> SortItem" where
  "exampleRow ts = \<lparr>Data = RowData [], Schema = ''test'', Table = ''t1'', TS = ts\<rparr>"

definition exampleDropSchema :: SortItem where
  "exampleDropSchema =
     \<lparr>Data = DDLData \<lparr>Query = ''drop database test'', Type = ActionDropSchema\<rparr>,
      Schema = ''test'', Table = [], TS = 150\<rparr>"

definition exampleAlterTable :: SortItem where
  "exampleAlterTable =
     \<lparr>Data = DDLData \<lparr>Query = ''alter table t1 add column c int'', Type = ActionOther 5\<rparr>,
      Schema = ''test'', Table = ''t1'', TS = 150\<rparr>"

text \<open>The example client with one pair pending in the buffer of table 1.\<close>

definition examplePending :: LogClient where
  "examplePending =
     exampleClient\<lparr>tableBuffers :=
       [1 \<mapsto> \<lparr>tableInfo = Some (TableInfo 7), KvPairs = [\<lparr>Key = k1, Val = v1\<rparr>]\<rparr>]\<rparr>"

text \<open>An executor that accepts the schema switch and fails on every other statement.\<close>

definition exampleEnvDDLFails :: env where
  "exampleEnvDDLFails =
     exampleEnv\<lparr>Execute :=
       (\<lambda>cs stmt. if stmt = ''use test'' then None else Some (ErrCollaborator 1))\<rparr>"

definition exampleCreateSchema :: SortItem where
  "exampleCreateSchema =
     \<lparr>Data = DDLData \<lparr>Query = ''create database test'', Type = ActionCreateSchema\<rparr>,
      Schema = ''test'', Table = [], TS = 90\<rparr>"

text \<open>The listing of the DDL directory, not in the order of the names: a file whose name
  encodes commitTS 150 (\<open>maxUint64 - 150\<close>) with a \<open>DropSchema\<close> at 150, a file that is no DDL
  file, a file whose name encodes commitTS 250, above \<open>endTS\<close>, and a file whose name encodes
  commitTS 90 with a \<open>CreateSchema\<close> at 90 and a change of the character set at 120. One
  table with one row event.\<close>

definition exampleDDLPath :: string where
  "exampleDDLPath = ''ddls/ddl.18446744073709551525''"

definition exampleAlterSchema :: SortItem where
  "exampleAlterSchema =
     \<lparr>Data = DDLData \<lparr>Query = ''alter database test charset utf8mb4'',
                       Type = ActionModifySchemaCharsetAndCollate\<rparr>,
      Schema = ''test'', Table = [], TS = 120\<rparr>"

definition exampleDDLPath150 :: string where
  "exampleDDLPath150 = ''ddls/ddl.18446744073709551465''"

definition exampleDDLPath250 :: string where
  "exampleDDLPath250 = ''ddls/ddl.18446744073709551365''"

definition exampleEnvDDLFiles :: env where
  "exampleEnvDDLFiles =
     exampleEnv\<lparr>WalkDir := (\<lambda>dir. Inr [exampleDDLPath150, ''ddls/readme'', exampleDDLPath250, exampleDDLPath]),
       NewJSONEventBatchDecoder := (\<lambda>data.
         if data = exampleDDLPath then Inr [Inr exampleCreateSchema, Inr exampleAlterSchema]
         else if data = exampleDDLPath150 then Inr [Inr exampleDropSchema]
         else Inr []),
       tablePullers := (\<lambda>ddlFiles l.
         Inr [(1, [Inr (exampleRow 150)], \<lparr>tableInfo = Some (TableInfo 7), KvPairs = []\<rparr>)])\<rparr>"

text \<open>Two DDL files whose numbers differ in length: \<open>ddl.9\<close> encodes commitTS
  \<open>maxUint64 - 9\<close> and holds a \<open>DropSchema\<close> at that commitTS, \<open>ddl.10\<close> encodes
  \<open>maxUint64 - 10\<close> and holds a \<open>CreateSchema\<close> at that commitTS. The resolved ts of the meta
  file is \<open>maxUint64\<close>; \<open>exampleClientOpen\<close> is the example client with \<open>endTS = maxUint64\<close>
  once that meta file is loaded.\<close>

definition exampleClientOpen :: LogClient where
  "exampleClientOpen =
     exampleClient\<lparr>endTS := maxUint64,
       meta := \<lparr>Names = [1 \<mapsto> ''test.t1''], GlobalResolvedTS = maxUint64\<rparr>\<rparr>"

definition exampleEnvDDLOrder :: env where
  "exampleEnvDDLOrder =
     exampleEnv\<lparr>WalkDir := (\<lambda>dir. Inr [''ddls/ddl.10'', ''ddls/ddl.9'']),
       UnmarshalMeta := (\<lambda>data. Inr \<lparr>Names = [1 \<mapsto> ''test.t1''], GlobalResolvedTS = maxUint64\<rparr>),
       NewJSONEventBatchDecoder := (\<lambda>data.
         if data = ''ddls/ddl.9'' then Inr [Inr (exampleDropSchema\<lparr>TS := maxUint64 - 9\<rparr>)]
         else Inr [Inr (exampleCreateSchema\<lparr>TS := maxUint64 - 10\<rparr>)])\<rparr>"

text \<open>One DDL file with two \<open>DropSchema\<close> events of schema \<open>test\<close>, at 150 and at 170; the
  puller of table 1 returns them with a row event at 160 between.\<close>

definition exampleEnvTwoDrops :: env where
  "exampleEnvTwoDrops =
     exampleEnv\<lparr>WalkDir := (\<lambda>dir. Inr [exampleDDLPath]),
       NewJSONEventBatchDecoder := (\<lambda>data. Inr [Inr exampleDropSchema, Inr (exampleDropSchema\<lparr>TS := 170\<rparr>)]),
       tablePullers := (\<lambda>ddlFiles l.
         Inr [(1, [Inr exampleDropSchema, Inr (exampleRow 160), Inr (exampleDropSchema\<lparr>TS := 170\<rparr>)],
               \<lparr>tableInfo = Some (TableInfo 7), KvPairs = []\<rparr>)])\<rparr>"

text \<open>The same with the two events in the other order in the file.\<close>

definition exampleEnvTwoDropsRev :: env where
  "exampleEnvTwoDropsRev =
     exampleEnvTwoDrops\<lparr>NewJSONEventBatchDecoder :=
       (\<lambda>data. Inr [Inr (exampleDropSchema\<lparr>TS := 170\<rparr>), Inr exampleDropSchema])\<rparr>"

text \<open>One DDL file that holds the \<open>DropSchema\<close> at 150 before the change of the character
  set at 120, and no table.\<close>

definition exampleEnvDDLStream :: env where
  "exampleEnvDDLStream =
     exampleEnv\<lparr>WalkDir := (\<lambda>dir. Inr [exampleDDLPath]),
       NewJSONEventBatchDecoder := (\<lambda>data. Inr [Inr exampleDropSchema, Inr exampleAlterSchema])\<rparr>"

text \<open>A table with two generated columns and one captured column: the expression of
  column 0 adds one to column 2, the expression of column 1 reads column 1. The row
  supplies column 2 only, and the table has an automatic row id.\<close>

definition exampleCols :: "Column list" where
  "exampleCols =
     [\<lparr>Offset = 0, GeneratedExpr = Some 2, ColID = 1, IsGenerated = True,
       HasAutoIncrementFlag = False, HasUnsignedFlag = False, FieldTp = TypeLong\<rparr>,
      \<lparr>Offset = 1, GeneratedExpr = Some (Suc 0), ColID = 2, IsGenerated = True,
       HasAutoIncrementFlag = False, HasUnsignedFlag = False, FieldTp = TypeLong\<rparr>,
      \<lparr>Offset = 2, GeneratedExpr = None, ColID = 3, IsGenerated = False,
       HasAutoIncrementFlag = False, HasUnsignedFlag = False, FieldTp = TypeLong\<rparr>]"

definition exampleTable :: tableKVEncoder where
  "exampleTable =
     \<lparr>Cols = exampleCols, ContainsAutoRandomBits = False, TableHasAutoRowID = True,
      autoRandomColID = 0, genCols = [], autoIDFn = (\<lambda>id. id)\<rparr>"

definition exampleKvEnv :: kvenv where
  "exampleKvEnv =
     \<lparr>RewriteAstExpr = (\<lambda>ast. Inr ast),
      Eval = (\<lambda>e recd. Inr (case recd ! e of IntDatum i \<Rightarrow> IntDatum (i + 1) | d \<Rightarrow> d)),
      CastValue = (\<lambda>d col. Inr d),
      CastExtraHandle = (\<lambda>d. Inr d),
      CheckNotNull = (\<lambda>col d. d \<noteq> NullDatum),
      HandleBadNull = (\<lambda>col d. Inl (ErrCollaborator 2)),
      GetColDefaultValue = (\<lambda>col. Inr NullDatum),
      GetMinValue = (\<lambda>col. OtherDatum 0),
      GetInt64 = (\<lambda>d. case d of IntDatum i \<Rightarrow> i | _ \<Rightarrow> 0),
      GetFloat64Round = (\<lambda>d. 0),
      MaskIncremental = (\<lambda>i. i),
      Rebase = (\<lambda>tp base. None),
      AddRecord = (\<lambda>recd. Inr [])\<rparr>"

section \<open>File-name classification\<close>

lemma Split_not_Nil: "Split s sep \<noteq> []"
  by (induction s) (auto split: list.splits)

text \<open>What \<open>ParseUint\<close> accepts: the non-empty strings of decimal digits whose value is
  below \<open>2^64\<close>.\<close>

lemma ParseUint_loop_digits: "ParseUint_loop n s = Inr m \<Longrightarrow> list_all isDigit s"
  by (induction s arbitrary: n) (auto split: if_splits)

lemma ParseUint_loop_bound: "ParseUint_loop n s = Inr m \<Longrightarrow> n < 2 ^ 64 \<Longrightarrow> m < 2 ^ 64"
  by (induction s arbitrary: n) (auto split: if_splits)

lemma ParseUint_loop_value:
  "ParseUint_loop n s = Inr m \<Longrightarrow> m = foldl (\<lambda>a c. a * 10 + digitVal c) n s"
  by (induction s arbitrary: n) (auto split: if_splits)

lemma ParseUint_loop_accepts:
  "list_all isDigit s \<Longrightarrow> foldl (\<lambda>a c. a * 10 + digitVal c) n s < 2 ^ 64
     \<Longrightarrow> ParseUint_loop n s = Inr (foldl (\<lambda>a c. a * 10 + digitVal c) n s)"
proof (induction s arbitrary: n)
  case Nil
  then show ?case by simp
next
  case (Cons c s)
  have mono: "k \<le> foldl (\<lambda>a c. a * 10 + digitVal c) k t" for k t
  proof (induction t arbitrary: k)
    case Nil
    show ?case by simp
  next
    case (Cons d t)
    have "k \<le> k * 10 + digitVal d" by simp
    also have "\<dots> \<le> foldl (\<lambda>a c. a * 10 + digitVal c) (k * 10 + digitVal d) t"
      by (rule Cons.IH)
    finally show ?case by simp
  qed
  from Cons.prems mono [of "n * 10 + digitVal c" s]
  have small: "n * 10 + digitVal c < 2 ^ 64" by simp
  then have "n < (2 ^ 64 - 1) div 10 + 1" by simp
  with Cons small show ?case by simp
qed

lemma ParseUint_Inr_iff:
  "(\<exists>ts. ParseUint s = Inr ts) \<longleftrightarrow>
     s \<noteq> [] \<and> list_all isDigit s \<and> foldl (\<lambda>a c. a * 10 + digitVal c) 0 s < 2 ^ 64"
proof
  assume "\<exists>ts. ParseUint s = Inr ts"
  then obtain m where ne: "s \<noteq> []" and m: "ParseUint_loop 0 s = Inr m"
    by (auto simp: ParseUint_def split: if_splits sum.splits)
  from ParseUint_loop_digits [OF m] ParseUint_loop_bound [OF m] ParseUint_loop_value [OF m] ne
  show "s \<noteq> [] \<and> list_all isDigit s \<and> foldl (\<lambda>a c. a * 10 + digitVal c) 0 s < 2 ^ 64"
    by simp
next
  assume "s \<noteq> [] \<and> list_all isDigit s \<and> foldl (\<lambda>a c. a * 10 + digitVal c) 0 s < 2 ^ 64"
  then show "\<exists>ts. ParseUint s = Inr ts"
    by (simp add: ParseUint_def ParseUint_loop_accepts)
qed

text \<open>C10. The classification of file names is lenient. A name that does not split at
  the dots into exactly two segments, or whose first segment is not the prefix (\<open>ddl\<close>,
  \<open>cdclog\<close>), makes \<open>NeedRestoreDDL\<close> and \<open>NeedRestoreRowChange\<close> return \<open>(false, nil)\<close>;
  the bare name \<open>cdclog\<close> is the exception for row-change files and is always collected.
  An error is returned exactly when the name has the two segments and the prefix and
  \<open>ParseUint\<close> rejects the second segment.\<close>

theorem file_name_classification_lenient:
  "(length (Split f (CHR ''.'')) \<noteq> 2 \<or> Split f (CHR ''.'') ! 0 \<noteq> ''ddl''
      \<longrightarrow> NeedRestoreDDL l f = Inr False)
   \<and> (f \<noteq> ''cdclog'' \<and> (length (Split f (CHR ''.'')) \<noteq> 2 \<or> Split f (CHR ''.'') ! 0 \<noteq> ''cdclog'')
      \<longrightarrow> NeedRestoreRowChange l f = Inr False)
   \<and> NeedRestoreRowChange l ''cdclog'' = Inr True
   \<and> ((\<exists>e. NeedRestoreDDL l f = Inl e) \<longleftrightarrow>
        length (Split f (CHR ''.'')) = 2 \<and> Split f (CHR ''.'') ! 0 = ''ddl''
        \<and> (\<exists>e. ParseUint (Split f (CHR ''.'') ! 1) = Inl e))
   \<and> ((\<exists>e. NeedRestoreRowChange l f = Inl e) \<longleftrightarrow>
        f \<noteq> ''cdclog'' \<and> length (Split f (CHR ''.'')) = 2 \<and> Split f (CHR ''.'') ! 0 = ''cdclog''
        \<and> (\<exists>e. ParseUint (Split f (CHR ''.'') ! 1) = Inl e))"
  by (auto simp: NeedRestoreDDL_def NeedRestoreRowChange_def Let_def ddlFilePrefix_def
      logPrefix_def split: sum.splits)

theorem file_name_classification_lenient_witness:
  "NeedRestoreDDL exampleClient ''ddl.1.2'' = Inr False
   \<and> NeedRestoreDDL exampleClient ''cdclog.150'' = Inr False
   \<and> NeedRestoreRowChange exampleClient ''ddl.150'' = Inr False
   \<and> NeedRestoreRowChange exampleClient ''cdclog.1.2'' = Inr False
   \<and> (\<exists>e. NeedRestoreDDL exampleClient ''ddl.12x'' = Inl e)
   \<and> (\<exists>e. NeedRestoreRowChange exampleClient ''cdclog.'' = Inl e)"
  using file_name_classification_lenient [of "''ddl.1.2''" exampleClient]
    file_name_classification_lenient [of "''cdclog.150''" exampleClient]
    file_name_classification_lenient [of "''ddl.150''" exampleClient]
    file_name_classification_lenient [of "''cdclog.1.2''" exampleClient]
    file_name_classification_lenient [of "''ddl.12x''" exampleClient]
    file_name_classification_lenient [of "''cdclog.''" exampleClient]
  by (simp add: ParseUint_def isDigit_def digitVal_def)

section \<open>Sorting and deduplication in writeRows\<close>

lemma bytes_Compare_less: "bytes_Compare a b < 0 \<longleftrightarrow> a < b"
  by (induction a b rule: bytes_Compare.induct) auto

lemma lessKey_iff: "lessKey a b \<longleftrightarrow> Key a < Key b"
  by (simp add: lessKey_def bytes_Compare_less)

lemma insertStable_insort: "insertStable lessKey x ys = insort_key Key x ys"
  by (induction ys) (auto simp: lessKey_iff)

lemma SliceStable_sort_key: "SliceStable lessKey xs = sort_key Key xs"
  by (induction xs) (simp_all add: SliceStable_def insertStable_insort)

lemma removeDup_keepLast:
  "i \<le> length kvs \<Longrightarrow> removeDup kvs i newKvs = newKvs @ keepLastOfRun (drop i kvs)"
proof (induction kvs i newKvs rule: removeDup.induct)
  case (1 kvs i newKvs)
  show ?case
  proof (cases "i < length kvs")
    case False
    with "1.prems" show ?thesis by (simp add: removeDup.simps)
  next
    case True
    note lt = this
    show ?thesis
    proof (cases "i = length kvs - 1")
      case True
      with lt have "drop i kvs = [kvs ! i]"
        by (metis Cons_nth_drop_Suc Suc_diff_1 drop_all le_refl length_greater_0_conv list.size(3) not_less_zero)
      then show ?thesis
        by (subst removeDup.simps) (use lt True in simp)
    next
      case False
      with lt have lt2: "Suc i < length kvs" by simp
      have d1: "drop i kvs = kvs ! i # kvs ! Suc i # drop (Suc (Suc i)) kvs"
        using lt lt2 by (simp add: Cons_nth_drop_Suc)
      have d2: "drop (Suc i) kvs = kvs ! Suc i # drop (Suc (Suc i)) kvs"
        using lt2 by (simp add: Cons_nth_drop_Suc)
      show ?thesis
        by (subst removeDup.simps)
          (use "1.IH"(1) [OF lt False] "1.IH"(2) [OF lt False] lt lt2 False in \<open>simp add: d1 d2\<close>)
    qed
  qed
qed

lemma keepLast_subset: "set (keepLastOfRun xs) \<subseteq> set xs"
  by (induction xs rule: keepLastOfRun.induct) auto

lemma keepLast_keys: "Key ` set (keepLastOfRun xs) = Key ` set xs"
  by (induction xs rule: keepLastOfRun.induct) auto

lemma keepLast_strict:
  "sorted (map Key xs) \<Longrightarrow> sorted_wrt (<) (map Key (keepLastOfRun xs))"
proof (induction xs rule: keepLastOfRun.induct)
  case (3 x y ys)
  show ?case
  proof (cases "Key x = Key y")
    case True with 3 show ?thesis by simp
  next
    case False
    with "3.prems" have lt: "Key x < Key y" by (simp add: less_le)
    have "\<forall>k \<in> Key ` set (keepLastOfRun (y # ys)). Key x < k"
      unfolding keepLast_keys using "3.prems" lt by auto
    with 3 False show ?thesis by auto
  qed
qed simp_all

lemma keepLast_last:
  "sorted (map Key xs) \<Longrightarrow> p \<in> set (keepLastOfRun xs) \<Longrightarrow> p = last (filter (\<lambda>q. Key q = Key p) xs)"
proof (induction xs rule: keepLastOfRun.induct)
  case (3 x y ys)
  have ne: "q \<in> set (keepLastOfRun (y # ys)) \<Longrightarrow> filter (\<lambda>r. Key r = Key q) (y # ys) \<noteq> []" for q
    using keepLast_subset [of "y # ys"] by (auto simp: filter_empty_conv)
  show ?case
  proof (cases "Key x = Key y")
    case True
    with "3.prems" have p: "p \<in> set (keepLastOfRun (y # ys))" by simp
    from "3.IH"(1) [OF True] "3.prems" p have "p = last (filter (\<lambda>q. Key q = Key p) (y # ys))" by simp
    with ne [OF p] show ?thesis by (simp del: keepLastOfRun.simps)
  next
    case False
    with "3.prems" have lt: "Key x < Key y" by (simp add: less_le)
    from "3.prems" False consider "p = x" | "p \<in> set (keepLastOfRun (y # ys))" by auto
    then show ?thesis
    proof cases
      case 1
      have "filter (\<lambda>q. Key q = Key x) (y # ys) = []"
        using "3.prems"(1) lt by (auto simp: filter_empty_conv)
      with 1 show ?thesis by simp
    next
      case 2
      from "3.IH"(2) [OF False] "3.prems" 2 have "p = last (filter (\<lambda>q. Key q = Key p) (y # ys))" by simp
      with ne [OF 2] show ?thesis by (simp del: keepLastOfRun.simps)
    qed
  qed
qed simp_all

lemma newKvs_keepLast: "writeRows_newKvs kvs = keepLastOfRun (sort_key Key kvs)"
  by (simp add: writeRows_newKvs_def removeDup_keepLast SliceStable_sort_key)

text \<open>C4 (amended). \<open>writeRows\<close> stable-sorts the batch by key: the result is ordered by
  \<open>bytes.Compare\<close>, holds the same pairs, and the pairs of one key keep their buffering
  order. The loop then leaves one pair per key, the keys strictly ascending, and the pair
  left for a key is the one buffered last with that key. For two pairs of one key the
  survivor is therefore the second one buffered: \<open>v2\<close> when \<open>(k1, v1)\<close> was buffered before
  \<open>(k1, v2)\<close>, and \<open>v1\<close> in the opposite order. The pairs carry no commit timestamp.\<close>

theorem writeRows_keeps_last_buffered:
  "sorted_wrt (\<lambda>a b. bytes_Compare (Key b) (Key a) \<ge> 0) (SliceStable lessKey kvs)
   \<and> mset (SliceStable lessKey kvs) = mset kvs
   \<and> (\<forall>k. filter (\<lambda>q. Key q = k) (SliceStable lessKey kvs) = filter (\<lambda>q. Key q = k) kvs)
   \<and> writeRows_newKvs kvs = keepLastOfRun (SliceStable lessKey kvs)
   \<and> sorted_wrt (\<lambda>a b. bytes_Compare (Key a) (Key b) < 0) (writeRows_newKvs kvs)
   \<and> Key ` set (writeRows_newKvs kvs) = Key ` set kvs
   \<and> (\<forall>p \<in> set (writeRows_newKvs kvs). p = last (filter (\<lambda>q. Key q = Key p) kvs))
   \<and> writeRows_newKvs [\<lparr>Key = k, Val = a\<rparr>, \<lparr>Key = k, Val = b\<rparr>] = [\<lparr>Key = k, Val = b\<rparr>]
   \<and> writeRows_newKvs [\<lparr>Key = k, Val = b\<rparr>, \<lparr>Key = k, Val = a\<rparr>] = [\<lparr>Key = k, Val = a\<rparr>]"
proof -
  have s1: "sorted (map Key (sort_key Key kvs))" by (rule sorted_sort_key)
  have a: "sorted_wrt (\<lambda>a b. bytes_Compare (Key b) (Key a) \<ge> 0) (SliceStable lessKey kvs)"
    using s1 by (simp add: SliceStable_sort_key sorted_wrt_map bytes_Compare_less [symmetric]
        not_less [symmetric] del: not_less)
  have b: "mset (SliceStable lessKey kvs) = mset kvs" by (simp add: SliceStable_sort_key)
  have c: "filter (\<lambda>q. Key q = k) (SliceStable lessKey kvs) = filter (\<lambda>q. Key q = k) kvs" for k
    by (simp add: SliceStable_sort_key sort_key_stable)
  have c': "writeRows_newKvs kvs = keepLastOfRun (SliceStable lessKey kvs)"
    by (simp add: newKvs_keepLast SliceStable_sort_key)
  have d: "sorted_wrt (\<lambda>a b. bytes_Compare (Key a) (Key b) < 0) (writeRows_newKvs kvs)"
    using keepLast_strict [OF s1] by (simp add: newKvs_keepLast sorted_wrt_map bytes_Compare_less)
  have e: "Key ` set (writeRows_newKvs kvs) = Key ` set kvs"
    by (simp add: newKvs_keepLast keepLast_keys)
  have f: "p = last (filter (\<lambda>q. Key q = Key p) kvs)" if "p \<in> set (writeRows_newKvs kvs)" for p
    using keepLast_last [OF s1, of p] that by (simp add: newKvs_keepLast sort_key_stable)
  have g: "writeRows_newKvs [\<lparr>Key = k, Val = x\<rparr>, \<lparr>Key = k, Val = y\<rparr>] = [\<lparr>Key = k, Val = y\<rparr>]" for x y
    by (simp add: newKvs_keepLast)
  from a b c c' d e f g show ?thesis by blast
qed

theorem writeRows_keeps_last_buffered_witness:
  "\<lparr>Key = k1, Val = v2\<rparr>
     \<in> set (writeRows_newKvs [\<lparr>Key = k1, Val = v1\<rparr>, \<lparr>Key = [107], Val = []\<rparr>, \<lparr>Key = k1, Val = v2\<rparr>])
   \<and> \<lparr>Key = k1, Val = v2\<rparr>
       = last (filter (\<lambda>q. Key q = k1)
           [\<lparr>Key = k1, Val = v1\<rparr>, \<lparr>Key = [107], Val = []\<rparr>, \<lparr>Key = k1, Val = v2\<rparr>])
   \<and> writeRows_newKvs [\<lparr>Key = k1, Val = v1\<rparr>, \<lparr>Key = k1, Val = v2\<rparr>] = [\<lparr>Key = k1, Val = v2\<rparr>]"
  using writeRows_keeps_last_buffered
    [of "[\<lparr>Key = k1, Val = v1\<rparr>, \<lparr>Key = [107], Val = []\<rparr>, \<lparr>Key = k1, Val = v2\<rparr>]" k1 v1 v2]
  by (simp add: newKvs_keepLast k1_def v1_def v2_def)

text \<open>The claim as stated fails when the pair committed later is buffered first: of
  \<open>(k1, v2)\<close> then \<open>(k1, v1)\<close> the pair with \<open>v1\<close> survives.\<close>

theorem dedup_any_order_counterexample:
  "writeRows_newKvs [\<lparr>Key = k1, Val = v2\<rparr>, \<lparr>Key = k1, Val = v1\<rparr>] = [\<lparr>Key = k1, Val = v1\<rparr>]
   \<and> v1 \<noteq> v2"
  by (simp add: newKvs_keepLast k1_def v1_def v2_def)

section \<open>The replay loop of one table\<close>

lemma onlyCalls_refl: "onlyCalls P l l"
  by (auto simp: onlyCalls_def intro: exI [of _ "[]"])

lemma onlyCalls_trans: "onlyCalls P l l1 \<Longrightarrow> onlyCalls P l1 l2 \<Longrightarrow> onlyCalls P l l2"
  unfolding onlyCalls_def
  apply (elim exE conjE)
  subgoal for cs cs'
    by (rule exI [of _ "cs @ cs'"]) simp
  done

lemma onlyCalls_logCall: "P c \<Longrightarrow> onlyCalls P l (logCall c l)"
  by (auto simp: onlyCalls_def logCall_def intro: exI [of _ "[c]"])

lemma writeRows_round_only:
  "writeRows_round env kvs rs rem l = (r, rem', l') \<Longrightarrow> onlyCalls isIngest l l'"
proof (induction rs arbitrary: rem l)
  case Nil
  then show ?case by (simp add: onlyCalls_refl)
next
  case (Cons a rs)
  have step: "onlyCalls isIngest l (logCall (CallIngest kvs a) l)"
    by (rule onlyCalls_logCall) (simp add: isIngest_def)
  show ?case
  proof (cases "writeAndIngestByRange env (calls l) kvs a")
    case (Inl e)
    with Cons.prems step show ?thesis by auto
  next
    case (Inr u)
    with Cons.prems have "writeRows_round env kvs rs (rem @ u) (logCall (CallIngest kvs a) l) = (r, rem', l')"
      by simp
    from onlyCalls_trans [OF step Cons.IH [OF this]] show ?thesis .
  qed
qed


lemma writeRows_loop_only:
  "writeRows_loop env kvs rs l = Some y \<Longrightarrow> onlyCalls isIngest l (snd y)"
proof (induction rule: writeRows_loop.raw_induct [rotated 1, consumes 1])
  case (1 loop env newKvs remain l y)
  show ?case
  proof (cases "length remain = 0")
    case True
    with 1(2) show ?thesis by (auto simp: onlyCalls_refl)
  next
    case False
    obtain r rem l1 where rd: "writeRows_round env newKvs remain [] l = (r, rem, l1)"
      by (cases "writeRows_round env newKvs remain [] l") auto
    note first = writeRows_round_only [OF rd]
    show ?thesis
    proof (cases r)
      case None
      with 1(2) False rd have "loop env newKvs rem l1 = Some y" by simp
      from onlyCalls_trans [OF first 1(1) [OF this]] show ?thesis .
    next
      case (Some e)
      with 1(2) False rd first show ?thesis by auto
    qed
  qed
qed

lemma writeRows_only: "writeRows env kvs l = Some (r, l') \<Longrightarrow> onlyCalls isIngest l l'"
  using writeRows_loop_only [of env _ _ l "(r, l')"]
  by (auto simp: writeRows_def Let_def onlyCalls_refl split: if_splits)

lemma onlyCalls_replayStep: "onlyCalls P l l' \<Longrightarrow> replayStep P l l' \<and> ddlLock l' = ddlLock l \<and> tableBuffers l' = tableBuffers l"
  by (auto simp: onlyCalls_def replayStep_def)

lemma applyKVChanges_step:
  assumes "applyKVChanges env t l = Some (r, l')"
  shows "replayStep isIngest l l' \<and> ddlLock l' = ddlLock l"
proof (cases "tableBuffers l t")
  case None
  with assms show ?thesis by (auto simp: applyKVChanges_def replayStep_def)
next
  case (Some tb)
  show ?thesis
  proof (cases "IsEmpty tb")
    case True
    with Some assms show ?thesis by (auto simp: applyKVChanges_def replayStep_def)
  next
    case False
    let ?d = "filter (\<lambda>p. isDataKey env (Key p)) (KvPairs tb)"
    let ?i = "filter (\<lambda>p. \<not> isDataKey env (Key p)) (KvPairs tb)"
    from assms Some False obtain r1 l1 where w1: "writeRows env ?d l = Some (r1, l1)"
      by (auto simp: applyKVChanges_def Let_def split: option.splits)
    note s1 = onlyCalls_replayStep [OF writeRows_only [OF w1]]
    show ?thesis
    proof (cases r1)
      case (Some e)
      with assms \<open>tableBuffers l t = Some tb\<close> False w1 s1 show ?thesis
        by (auto simp: applyKVChanges_def Let_def)
    next
      case None
      with assms \<open>tableBuffers l t = Some tb\<close> False w1 obtain r2 l2 where w2: "writeRows env ?i l1 = Some (r2, l2)"
        by (auto simp: applyKVChanges_def Let_def split: option.splits)
      note s2 = onlyCalls_replayStep [OF writeRows_only [OF w2]]
      from assms \<open>tableBuffers l t = Some tb\<close> False w1 w2 None
      have "l' = l2 \<or> l' = l2\<lparr>tableBuffers := (tableBuffers l2)(t \<mapsto> Clear tb)\<rparr>"
        by (auto simp: applyKVChanges_def Let_def split: option.splits)
      with s1 s2 show ?thesis by (auto simp: replayStep_def)
    qed
  qed
qed


lemma reloadTableMeta_step:
  "reloadTableMeta env t item l = (r, l') \<Longrightarrow> replayStep (\<lambda>c. c = CallReload) l l' \<and> ddlLock l' = ddlLock l"
  by (auto simp: reloadTableMeta_def Let_def replayStep_def logCall_def
      split: option.splits sum.splits if_splits)


lemma replayStep_refl: "replayStep P l l"
  by (simp add: replayStep_def)

lemma replayStep_trans: "replayStep P l l1 \<Longrightarrow> replayStep P l1 l2 \<Longrightarrow> replayStep P l l2"
  by (auto simp: replayStep_def)

lemma replayStep_mono: "replayStep P l l' \<Longrightarrow> (\<And>c. P c \<Longrightarrow> Q c) \<Longrightarrow> replayStep Q l l'"
  by (auto simp: replayStep_def list_all_iff)

lemma applyKVChanges_stepD:
  "applyKVChanges env t l = Some (r, l') \<Longrightarrow> (\<And>c. isIngest c \<Longrightarrow> P c) \<Longrightarrow> replayStep P l l'"
  using applyKVChanges_step replayStep_mono by blast

lemma reloadTableMeta_stepD:
  "reloadTableMeta env t item l = (r, l') \<Longrightarrow> P CallReload \<Longrightarrow> replayStep P l l'"
  using reloadTableMeta_step [of env t item l r l'] replayStep_mono [of "\<lambda>c. c = CallReload" l l' P]
  by blast

lemma replayStep_logCall: "replayStep P l l1 \<Longrightarrow> P c \<Longrightarrow> replayStep P l (logCall c l1)"
  by (auto simp: replayStep_def logCall_def)

lemma replayStep_ddlLock: "replayStep P l l1 \<Longrightarrow> replayStep P l (l1\<lparr>ddlLock := b\<rparr>)"
  by (auto simp: replayStep_def)

lemma replayStep_tableBuffers: "replayStep P l l1 \<Longrightarrow> replayStep P l (l1\<lparr>tableBuffers := b\<rparr>)"
  by (auto simp: replayStep_def)

lemma restoreDDLEvent_cases:
  assumes "restoreDDLEvent env t item ddl l = Some (c, l')"
  shows "(c = Continue \<and> l' = l)
    \<or> (\<exists>err. c = Return (Some err) \<and> applyKVChanges env t l = Some (Some err, l'))
    \<or> (\<exists>l1. applyKVChanges env t l = Some (None, l1) \<and> \<not> ddlLock l1
          \<and> replayStep (\<lambda>c. c = CallReload \<or> c = CallExecute (''use '' @ Schema item) \<or> c = CallExecute (Query ddl)) l1 l'
          \<and> c \<noteq> Return None)"
proof -
  let ?P = "\<lambda>c. c = CallReload \<or> c = CallExecute (''use '' @ Schema item) \<or> c = CallExecute (Query ddl)"
  let ?name = "case Names (meta l) t of None \<Rightarrow> [] | Some n \<Rightarrow> n"
  let ?related = "fst (ParseQuoteName env ?name) = Schema item
      \<and> (snd (ParseQuoteName env ?name) = Table item \<or> isDBRelatedDDL ddl)"
  show ?thesis
  proof (cases "\<not> ?related \<or> isDBRelatedDDL ddl")
    case True
    with assms show ?thesis by (auto simp: restoreDDLEvent_def Let_def split: if_splits)
  next
    case False
    with assms obtain r l1 where ap: "applyKVChanges env t l = Some (r, l1)"
      by (auto simp: restoreDDLEvent_def Let_def split: if_splits option.splits)
    show ?thesis
    proof (cases r)
      case (Some e)
      with assms False ap show ?thesis by (auto simp: restoreDDLEvent_def Let_def)
    next
      case None
      with assms False ap have unl: "\<not> ddlLock l1"
        by (auto simp: restoreDDLEvent_def Let_def split: if_splits)
      let ?l2 = "l1\<lparr>ddlLock := True\<rparr>"
      let ?l3 = "logCall (CallExecute (''use '' @ Schema item)) ?l2"
      let ?l4 = "logCall (CallExecute (Query ddl)) ?l3"
      let ?l5 = "?l4\<lparr>ddlLock := False\<rparr>"
      have s3: "replayStep ?P l1 ?l3"
        by (intro replayStep_logCall replayStep_ddlLock replayStep_refl) simp
      have s4: "replayStep ?P l1 ?l4"
        by (intro replayStep_logCall s3) simp
      have s5: "replayStep ?P l1 ?l5"
        by (intro replayStep_ddlLock s4)
      have s6: "replayStep ?P l1 l6" if "reloadTableMeta env t item ?l5 = (r6, l6)" for r6 l6
        by (rule replayStep_trans [OF s5 reloadTableMeta_stepD [OF that]]) simp
      have s5': "replayStep ?P l1 (?l5\<lparr>tableBuffers := b\<rparr>)" for b
        by (rule replayStep_tableBuffers [OF s5])
      from assms False ap None unl
      have "(l' = ?l3 \<or> l' = ?l4 \<or> l' = ?l5 \<or> (\<exists>b. l' = ?l5\<lparr>tableBuffers := b\<rparr>)
              \<or> (\<exists>r6. reloadTableMeta env t item ?l5 = (r6, l'))) \<and> c \<noteq> Return None"
        unfolding restoreDDLEvent_def Let_def
        by (auto split: if_splits option.splits prod.splits)
      with s3 s4 s5 s5' s6 ap None unl show ?thesis by auto
    qed
  qed
qed

lemma restoreDDLEvent_step:
  assumes "restoreDDLEvent env t item ddl l = Some (c, l')"
  shows "replayStep (ddlCall item ddl) l l'"
  using restoreDDLEvent_cases [OF assms]
proof (elim disjE exE conjE)
  assume "c = Continue" "l' = l"
  then show ?thesis by (simp add: replayStep_refl)
next
  fix err assume "applyKVChanges env t l = Some (Some err, l')"
  then show ?thesis by (rule applyKVChanges_stepD) (simp add: ddlCall_def)
next
  fix l1
  assume a: "applyKVChanges env t l = Some (None, l1)"
    and b: "replayStep (\<lambda>c. c = CallReload \<or> c = CallExecute (''use '' @ Schema item) \<or> c = CallExecute (Query ddl)) l1 l'"
  have "replayStep (ddlCall item ddl) l l1"
    by (rule applyKVChanges_stepD [OF a]) (simp add: ddlCall_def)
  moreover have "replayStep (ddlCall item ddl) l1 l'"
    by (rule replayStep_mono [OF b]) (auto simp: ddlCall_def)
  ultimately show ?thesis by (rule replayStep_trans)
qed

lemma restoreRowEvent_step:
  assumes "restoreRowEvent env t item l = Some (c, l')"
  shows "replayStep (rowCall t item) l l' \<and> c \<noteq> Return None"
proof (cases "tableBuffers l t")
  case None
  with assms show ?thesis by (auto simp: restoreRowEvent_def replayStep_refl)
next
  case (Some tb)
  obtain r1 l1 where rl: "(if tableInfo tb = None then reloadTableMeta env t item l else (None, l)) = (r1, l1)"
    by (cases "if tableInfo tb = None then reloadTableMeta env t item l else (None, l)") auto
  have s1: "replayStep (rowCall t item) l l1"
    using rl reloadTableMeta_stepD [of env t item l r1 l1 "rowCall t item"]
    by (auto simp: replayStep_refl rowCall_def split: if_splits)
  show ?thesis
  proof (cases r1)
    case (Some e)
    with assms \<open>tableBuffers l t = Some tb\<close> rl s1 show ?thesis
      by (auto simp: restoreRowEvent_def)
  next
    case None
    note r1 = this
    show ?thesis
    proof (cases "tableBuffers l1 t")
      case None
      with assms \<open>tableBuffers l t = Some tb\<close> rl r1 s1 show ?thesis
        by (auto simp: restoreRowEvent_def)
    next
      case (Some tb1)
      let ?l2 = "logCall (CallAppend t item) l1"
      have s2: "replayStep (rowCall t item) l ?l2"
        by (rule replayStep_logCall [OF s1]) (simp add: rowCall_def)
      have s3: "replayStep (rowCall t item) l (?l2\<lparr>tableBuffers := b\<rparr>)" for b
        by (rule replayStep_tableBuffers [OF s2])
      have s4: "replayStep (rowCall t item) l l4"
        if "applyKVChanges env t (?l2\<lparr>tableBuffers := b\<rparr>) = Some (r4, l4)" for b r4 l4
        by (rule replayStep_trans [OF s3 applyKVChanges_stepD [OF that]]) (simp add: rowCall_def)
      from assms \<open>tableBuffers l t = Some tb\<close> rl r1 Some
      have "(l' = ?l2 \<or> (\<exists>b. l' = ?l2\<lparr>tableBuffers := b\<rparr>)
             \<or> (\<exists>b r4. applyKVChanges env t (?l2\<lparr>tableBuffers := b\<rparr>) = Some (r4, l'))) \<and> c \<noteq> Return None"
        unfolding restoreRowEvent_def Let_def
        by (auto split: if_splits option.splits prod.splits sum.splits)
      with s2 s3 s4 show ?thesis by auto
    qed
  qed
qed


lemma isIngest_iff: "isIngest c \<longleftrightarrow> (\<exists>kvs r. c = CallIngest kvs r)"
  by (cases c) (simp_all add: isIngest_def)

lemma isIngest_appendAllowed: "isIngest c \<Longrightarrow> appendAllowed l c"
  by (cases c) (simp_all add: isIngest_def appendAllowed_def)

lemma restoreEvent_step:
  assumes "restoreEvent env t item l = Some (c, l')"
  shows "replayStep (appendAllowed l) l l'"
proof -
  consider (early) "startTS l > TS item"
    | (late) "\<not> startTS l > TS item" "endTS l < TS item"
    | (fenced) "\<not> startTS l > TS item" "\<not> endTS l < TS item" "shouldFilter l item"
    | (dispatch) "\<not> startTS l > TS item" "\<not> endTS l < TS item" "\<not> shouldFilter l item"
    by blast
  then show ?thesis
  proof cases
    case early
    with assms show ?thesis by (simp add: restoreEvent_def replayStep_refl)
  next
    case late
    with assms obtain r where "applyKVChanges env t l = Some (r, l')"
      by (auto simp: restoreEvent_def split: option.splits)
    then show ?thesis by (rule applyKVChanges_stepD) (rule isIngest_appendAllowed)
  next
    case fenced
    with assms obtain r where "applyKVChanges env t l = Some (r, l')"
      by (auto simp: restoreEvent_def split: option.splits)
    then show ?thesis by (rule applyKVChanges_stepD) (rule isIngest_appendAllowed)
  next
    case dispatch
    then have ok: "tsInRange l (TS item) \<and> \<not> shouldFilter l item"
      by (simp add: tsInRange_def leI)
    show ?thesis
    proof (cases "Data item")
      case (DDLData ddl)
      with assms dispatch have "restoreDDLEvent env t item ddl l = Some (c, l')"
        by (simp add: restoreEvent_def)
      then have "replayStep (ddlCall item ddl) l l'" by (rule restoreDDLEvent_step)
      then show ?thesis
        by (rule replayStep_mono) (auto simp: ddlCall_def appendAllowed_def isIngest_iff)
    next
      case (RowData x)
      with assms dispatch have "restoreRowEvent env t item l = Some (c, l')"
        by (simp add: restoreEvent_def)
      then have "replayStep (rowCall t item) l l'" by (rule restoreRowEvent_step [THEN conjunct1])
      then show ?thesis
        by (rule replayStep_mono) (use ok in \<open>auto simp: rowCall_def appendAllowed_def isIngest_iff\<close>)
    qed
  qed
qed

lemma appendAllowed_replayStep: "replayStep P l l1 \<Longrightarrow> appendAllowed l1 = appendAllowed l"
  by (rule ext) (simp add: appendAllowed_def tsInRange_def shouldFilter_def replayStep_def
      split: call.splits)

lemma restoreTableFromPuller_step:
  "restoreTableFromPuller env t puller l = Some (r, l') \<Longrightarrow> replayStep (appendAllowed l) l l'"
proof (induction puller arbitrary: l)
  case Nil
  then have "applyKVChanges env t l = Some (r, l')" by simp
  then show ?case by (rule applyKVChanges_stepD) (rule isIngest_appendAllowed)
next
  case (Cons a puller)
  show ?case
  proof (cases a)
    case (Inl e)
    with Cons.prems show ?thesis by (simp add: replayStep_refl)
  next
    case (Inr item)
    with Cons.prems obtain c l1 where ev: "restoreEvent env t item l = Some (c, l1)"
      by (auto split: option.splits)
    note s1 = restoreEvent_step [OF ev]
    show ?thesis
    proof (cases c)
      case Continue
      with Cons.prems Inr ev have "restoreTableFromPuller env t puller l1 = Some (r, l')" by simp
      from Cons.IH [OF this] have "replayStep (appendAllowed l) l1 l'"
        by (simp add: appendAllowed_replayStep [OF s1])
      with s1 show ?thesis by (rule replayStep_trans)
    next
      case (Return r')
      with Cons.prems Inr ev s1 show ?thesis by simp
    qed
  qed
qed

lemmas replay_defs = restoreEvent_def restoreDDLEvent_def restoreRowEvent_def applyKVChanges_def
  reloadTableMeta_def writeRows_def writeRows_loop.simps newKvs_keepLast logCall_def
  shouldFilter_def tsInRange_def IsEmpty_def Clear_def ResetTableInfo_def ReloadMeta_def
  TableID_def isDBRelatedDDL_def isDropTable_def Let_def

lemmas example_defs = exampleClient_def exampleEnv_def exampleCatalog_def exampleRow_def
  exampleDropSchema_def exampleAlterTable_def examplePending_def exampleEnvDDLFails_def
  k1_def v1_def v2_def



lemma replayStep_newCalls:
  "replayStep P l l' \<Longrightarrow> list_all P (drop (length (calls l)) (calls l'))"
  by (auto simp: replayStep_def)




lemma onlyCalls_mono: "onlyCalls P l l' \<Longrightarrow> (\<And>c. P c \<Longrightarrow> Q c) \<Longrightarrow> onlyCalls Q l l'"
  by (auto simp: onlyCalls_def list_all_iff)

lemma writeRows_round_batch:
  "writeRows_round env kvs rs rem l = (r, rem', l') \<Longrightarrow> onlyCalls (\<lambda>c. \<exists>rg. c = CallIngest kvs rg) l l'"
proof (induction rs arbitrary: rem l)
  case Nil
  then show ?case by (simp add: onlyCalls_refl)
next
  case (Cons a rs)
  have step: "onlyCalls (\<lambda>c. \<exists>rg. c = CallIngest kvs rg) l (logCall (CallIngest kvs a) l)"
    by (rule onlyCalls_logCall) simp
  show ?case
  proof (cases "writeAndIngestByRange env (calls l) kvs a")
    case (Inl e)
    with Cons.prems step show ?thesis by auto
  next
    case (Inr u)
    with Cons.prems have "writeRows_round env kvs rs (rem @ u) (logCall (CallIngest kvs a) l) = (r, rem', l')"
      by simp
    from onlyCalls_trans [OF step Cons.IH [OF this]] show ?thesis .
  qed
qed

lemma writeRows_loop_batch:
  "writeRows_loop env kvs rs l = Some y \<Longrightarrow> onlyCalls (\<lambda>c. \<exists>rg. c = CallIngest kvs rg) l (snd y)"
proof (induction rule: writeRows_loop.raw_induct [rotated 1, consumes 1])
  case (1 loop env newKvs remain l y)
  show ?case
  proof (cases "length remain = 0")
    case True
    with 1(2) show ?thesis by (auto simp: onlyCalls_refl)
  next
    case False
    obtain r rem l1 where rd: "writeRows_round env newKvs remain [] l = (r, rem, l1)"
      by (cases "writeRows_round env newKvs remain [] l") auto
    note first = writeRows_round_batch [OF rd]
    show ?thesis
    proof (cases r)
      case None
      with 1(2) False rd have "loop env newKvs rem l1 = Some y" by simp
      from onlyCalls_trans [OF first 1(1) [OF this]] show ?thesis .
    next
      case (Some e)
      with 1(2) False rd first show ?thesis by auto
    qed
  qed
qed

lemma writeRows_newKvs_subset: "set (writeRows_newKvs kvs) \<subseteq> set kvs"
  using keepLast_subset [of "sort_key Key kvs"] by (simp add: newKvs_keepLast)

lemma writeRows_from:
  assumes "writeRows env kvs l = Some (r, l')" and "set kvs \<subseteq> S"
  shows "onlyCalls (\<lambda>c. isIngest c \<and> ingestedFrom S c) l l'"
proof (cases "length kvs = 0")
  case True
  with assms show ?thesis by (simp add: writeRows_def onlyCalls_refl)
next
  case False
  with assms(1) obtain rs where "writeRows_loop env (writeRows_newKvs kvs) rs l = Some (r, l')"
    by (auto simp: writeRows_def Let_def)
  from writeRows_loop_batch [OF this]
  have "onlyCalls (\<lambda>c. \<exists>rg. c = CallIngest (writeRows_newKvs kvs) rg) l l'" by simp
  then show ?thesis
    by (rule onlyCalls_mono) (use writeRows_newKvs_subset [of kvs] assms(2) in
        \<open>auto simp: isIngest_def ingestedFrom_def\<close>)
qed

lemma applyKVChanges_from:
  assumes ap: "applyKVChanges env t l = Some (r, l')" and bf: "bufferedFrom S t l"
  shows "replayStep (\<lambda>c. isIngest c \<and> ingestedFrom S c) l l' \<and> bufferedFrom S t l'"
proof (cases "tableBuffers l t")
  case None
  with ap bf show ?thesis by (auto simp: applyKVChanges_def replayStep_refl)
next
  case (Some tb)
  with bf have sub: "set (KvPairs tb) \<subseteq> S" by (simp add: bufferedFrom_def)
  show ?thesis
  proof (cases "IsEmpty tb")
    case True
    with Some ap bf show ?thesis by (auto simp: applyKVChanges_def replayStep_refl)
  next
    case False
    let ?d = "filter (\<lambda>p. isDataKey env (Key p)) (KvPairs tb)"
    let ?i = "filter (\<lambda>p. \<not> isDataKey env (Key p)) (KvPairs tb)"
    from ap Some False obtain r1 l1 where w1: "writeRows env ?d l = Some (r1, l1)"
      by (auto simp: applyKVChanges_def Let_def split: option.splits)
    have "set ?d \<subseteq> S" using sub by auto
    note s1 = onlyCalls_replayStep [OF writeRows_from [OF w1 this]]
    show ?thesis
    proof (cases r1)
      case (Some e)
      with ap \<open>tableBuffers l t = Some tb\<close> False w1 s1 bf show ?thesis
        by (auto simp: applyKVChanges_def Let_def bufferedFrom_def)
    next
      case None
      with ap \<open>tableBuffers l t = Some tb\<close> False w1 obtain r2 l2 where w2: "writeRows env ?i l1 = Some (r2, l2)"
        by (auto simp: applyKVChanges_def Let_def split: option.splits)
      have "set ?i \<subseteq> S" using sub by auto
      note s2 = onlyCalls_replayStep [OF writeRows_from [OF w2 this]]
      from ap \<open>tableBuffers l t = Some tb\<close> False w1 w2 None
      have "l' = l2 \<or> l' = l2\<lparr>tableBuffers := (tableBuffers l2)(t \<mapsto> Clear tb)\<rparr>"
        by (auto simp: applyKVChanges_def Let_def split: option.splits)
      moreover have "replayStep (\<lambda>c. isIngest c \<and> ingestedFrom S c) l l2"
        using s1 s2 by (blast intro: replayStep_trans)
      moreover have "bufferedFrom S t l2" using s1 s2 bf by (simp add: bufferedFrom_def)
      ultimately show ?thesis
        by (auto simp: bufferedFrom_def Clear_def intro: replayStep_tableBuffers)
    qed
  qed
qed

lemma bufferedFrom_cong:
  "map_option KvPairs (tableBuffers l' t) = map_option KvPairs (tableBuffers l t)
     \<Longrightarrow> bufferedFrom S t l' = bufferedFrom S t l"
  by (cases "tableBuffers l' t"; cases "tableBuffers l t") (auto simp: bufferedFrom_def)

lemma reloadTableMeta_KvPairs:
  "reloadTableMeta env t item l = (r, l')
     \<Longrightarrow> map_option KvPairs (tableBuffers l' t) = map_option KvPairs (tableBuffers l t)"
  by (auto simp: reloadTableMeta_def Let_def logCall_def ReloadMeta_def
      split: option.splits sum.splits if_splits)

lemma reloadTableMeta_buffered:
  "reloadTableMeta env t item l = (r, l') \<Longrightarrow> bufferedFrom S t l \<Longrightarrow> bufferedFrom S t l'"
  using bufferedFrom_cong [OF reloadTableMeta_KvPairs] by blast

lemma restoreDDLEvent_from:
  assumes ev: "restoreDDLEvent env t item ddl l = Some (c, l')" and bf: "bufferedFrom S t l"
  shows "replayStep (ingestedFrom S) l l' \<and> bufferedFrom S t l'"
proof -
  let ?P = "\<lambda>c. c = CallReload \<or> c = CallExecute (''use '' @ Schema item) \<or> c = CallExecute (Query ddl)"
  let ?name = "case Names (meta l) t of None \<Rightarrow> [] | Some n \<Rightarrow> n"
  let ?related = "fst (ParseQuoteName env ?name) = Schema item
      \<and> (snd (ParseQuoteName env ?name) = Table item \<or> isDBRelatedDDL ddl)"
  show ?thesis
  proof (cases "\<not> ?related \<or> isDBRelatedDDL ddl")
    case True
    with ev have "l' = l" by (auto simp: restoreDDLEvent_def Let_def split: if_splits)
    with bf show ?thesis by (simp add: replayStep_refl)
  next
    case False
    with ev obtain r l1 where ap: "applyKVChanges env t l = Some (r, l1)"
      by (auto simp: restoreDDLEvent_def Let_def split: if_splits option.splits)
    from applyKVChanges_from [OF ap bf]
    have s1: "replayStep (ingestedFrom S) l l1" and b1: "bufferedFrom S t l1"
      by (auto intro: replayStep_mono)
    show ?thesis
    proof (cases r)
      case (Some e)
      with ev False ap have "l' = l1" by (auto simp: restoreDDLEvent_def Let_def)
      with s1 b1 show ?thesis by simp
    next
      case None
      from ev False ap None
      have kv: "map_option KvPairs (tableBuffers l' t) = map_option KvPairs (tableBuffers l1 t)"
        unfolding restoreDDLEvent_def Let_def
        by (auto simp: logCall_def ResetTableInfo_def dest!: reloadTableMeta_KvPairs [where t = t]
            split: if_splits option.splits prod.splits)
      from bufferedFrom_cong [OF kv] b1 have b': "bufferedFrom S t l'" by simp
      from restoreDDLEvent_cases [OF ev] have "replayStep (ingestedFrom S) l l'"
      proof (elim disjE exE conjE)
        assume "l' = l"
        then show ?thesis by (simp add: replayStep_refl)
      next
        fix err assume "applyKVChanges env t l = Some (Some err, l')"
        with ap None show ?thesis by simp
      next
        fix l1'
        assume "applyKVChanges env t l = Some (None, l1')" and st: "replayStep ?P l1' l'"
        with ap have eq: "l1' = l1" by simp
        have "replayStep (ingestedFrom S) l1 l'"
          by (rule replayStep_mono [OF st [unfolded eq]]) (auto simp: ingestedFrom_def)
        with s1 show ?thesis by (rule replayStep_trans)
      qed
      with b' show ?thesis by simp
    qed
  qed
qed

lemma restoreRowEvent_from:
  assumes ev: "restoreRowEvent env t item l = Some (c, l')" and bf: "bufferedFrom S t l"
    and ps: "\<And>cs ti pairs. Append env cs ti item = Inr pairs \<Longrightarrow> set pairs \<subseteq> S"
  shows "replayStep (ingestedFrom S) l l' \<and> bufferedFrom S t l'"
proof (cases "tableBuffers l t")
  case None
  with ev bf show ?thesis by (auto simp: restoreRowEvent_def replayStep_refl)
next
  case (Some tb)
  obtain r1 l1 where rl: "(if tableInfo tb = None then reloadTableMeta env t item l else (None, l)) = (r1, l1)"
    by (cases "if tableInfo tb = None then reloadTableMeta env t item l else (None, l)") auto
  have s1: "replayStep (ingestedFrom S) l l1"
    using rl reloadTableMeta_stepD [of env t item l r1 l1 "ingestedFrom S"]
    by (auto simp: replayStep_refl ingestedFrom_def split: if_splits)
  have b1: "bufferedFrom S t l1"
    using rl bf reloadTableMeta_buffered [of env t item l r1 l1 S] by (auto split: if_splits)
  show ?thesis
  proof (cases r1)
    case (Some e)
    with ev \<open>tableBuffers l t = Some tb\<close> rl s1 b1 show ?thesis
      by (auto simp: restoreRowEvent_def)
  next
    case None
    note r1 = this
    show ?thesis
    proof (cases "tableBuffers l1 t")
      case None
      with ev \<open>tableBuffers l t = Some tb\<close> rl r1 s1 b1 show ?thesis
        by (auto simp: restoreRowEvent_def)
    next
      case (Some tb1)
      with b1 have sub1: "set (KvPairs tb1) \<subseteq> S" by (simp add: bufferedFrom_def)
      let ?l2 = "logCall (CallAppend t item) l1"
      have s2: "replayStep (ingestedFrom S) l ?l2"
        by (rule replayStep_logCall [OF s1]) (simp add: ingestedFrom_def)
      have b2: "bufferedFrom S t ?l2" using b1 by (simp add: bufferedFrom_def logCall_def)
      show ?thesis
      proof (cases "Append env (calls l1) (tableInfo tb1) item")
        case (Inl e)
        with ev \<open>tableBuffers l t = Some tb\<close> rl r1 Some s2 b2 show ?thesis
          by (auto simp: restoreRowEvent_def Let_def)
      next
        case (Inr pairs)
        let ?tb2 = "tb1\<lparr>KvPairs := KvPairs tb1 @ pairs\<rparr>"
        let ?l3 = "?l2\<lparr>tableBuffers := (tableBuffers ?l2)(t \<mapsto> ?tb2)\<rparr>"
        have s3: "replayStep (ingestedFrom S) l ?l3" by (rule replayStep_tableBuffers [OF s2])
        have b3: "bufferedFrom S t ?l3" using sub1 ps [OF Inr] by (simp add: bufferedFrom_def)
        show ?thesis
        proof (cases "ShouldApply env ?tb2")
          case False
          with ev \<open>tableBuffers l t = Some tb\<close> rl r1 Some Inr have "l' = ?l3"
            by (auto simp: restoreRowEvent_def Let_def)
          with s3 b3 show ?thesis by simp
        next
          case True
          with ev \<open>tableBuffers l t = Some tb\<close> rl r1 Some Inr
          obtain r4 where "applyKVChanges env t ?l3 = Some (r4, l')"
            by (auto simp: restoreRowEvent_def Let_def split: option.splits)
          from applyKVChanges_from [OF this b3] s3 show ?thesis
            by (auto intro: replayStep_trans replayStep_mono)
        qed
      qed
    qed
  qed
qed


lemma restoreEvent_from:
  assumes ev: "restoreEvent env t item l = Some (c, l')" and bf: "bufferedFrom S t l"
    and ps: "\<And>cs ti pairs. tsInRange l (TS item) \<Longrightarrow> \<not> shouldFilter l item
               \<Longrightarrow> Append env cs ti item = Inr pairs \<Longrightarrow> set pairs \<subseteq> S"
  shows "replayStep (ingestedFrom S) l l' \<and> bufferedFrom S t l'"
proof -
  consider (early) "startTS l > TS item"
    | (flush) "\<not> startTS l > TS item" "endTS l < TS item \<or> shouldFilter l item"
    | (dispatch) "\<not> startTS l > TS item" "\<not> endTS l < TS item" "\<not> shouldFilter l item"
    by blast
  then show ?thesis
  proof cases
    case early
    with ev bf show ?thesis by (simp add: restoreEvent_def replayStep_refl)
  next
    case flush
    with ev obtain r where "applyKVChanges env t l = Some (r, l')"
      by (auto simp: restoreEvent_def split: option.splits if_splits)
    from applyKVChanges_from [OF this bf] show ?thesis by (auto intro: replayStep_mono)
  next
    case dispatch
    then have ok: "tsInRange l (TS item)" "\<not> shouldFilter l item"
      by (simp_all add: tsInRange_def leI)
    show ?thesis
    proof (cases "Data item")
      case (DDLData ddl)
      with ev dispatch have "restoreDDLEvent env t item ddl l = Some (c, l')"
        by (simp add: restoreEvent_def)
      from restoreDDLEvent_from [OF this bf] show ?thesis .
    next
      case (RowData x)
      with ev dispatch have "restoreRowEvent env t item l = Some (c, l')"
        by (simp add: restoreEvent_def)
      from restoreRowEvent_from [OF this bf ps [OF ok]] show ?thesis .
    qed
  qed
qed

lemma replayStep_filters:
  "replayStep P l l1 \<Longrightarrow> tsInRange l1 = tsInRange l \<and> shouldFilter l1 = shouldFilter l"
  by (auto simp: replayStep_def tsInRange_def shouldFilter_def fun_eq_iff)

lemma restoreTableFromPuller_from:
  assumes "restoreTableFromPuller env t puller l = Some (r, l')" and "bufferedFrom S t l"
    and "\<And>item cs ti pairs. Inr item \<in> set puller \<Longrightarrow> tsInRange l (TS item) \<Longrightarrow> \<not> shouldFilter l item
               \<Longrightarrow> Append env cs ti item = Inr pairs \<Longrightarrow> set pairs \<subseteq> S"
  shows "replayStep (ingestedFrom S) l l' \<and> bufferedFrom S t l'"
  using assms
proof (induction puller arbitrary: l)
  case Nil
  then have "applyKVChanges env t l = Some (r, l')" by simp
  from applyKVChanges_from [OF this Nil.prems(2)] show ?case by (auto intro: replayStep_mono)
next
  case (Cons a puller)
  show ?case
  proof (cases a)
    case (Inl e)
    with Cons.prems show ?thesis by (simp add: replayStep_refl)
  next
    case (Inr item)
    with Cons.prems(1) obtain c l1 where ev: "restoreEvent env t item l = Some (c, l1)"
      by (auto split: option.splits)
    have "replayStep (ingestedFrom S) l l1 \<and> bufferedFrom S t l1"
      by (rule restoreEvent_from [OF ev Cons.prems(2)]) (rule Cons.prems(3) [of item], simp_all add: Inr)
    then have s1: "replayStep (ingestedFrom S) l l1" and b1: "bufferedFrom S t l1" by simp_all
    note f = replayStep_filters [OF s1]
    show ?thesis
    proof (cases c)
      case Continue
      with Cons.prems(1) Inr ev have rest: "restoreTableFromPuller env t puller l1 = Some (r, l')" by simp
      have "replayStep (ingestedFrom S) l1 l' \<and> bufferedFrom S t l'"
        by (rule Cons.IH [OF rest b1]) (rule Cons.prems(3), simp_all add: f)
      with s1 show ?thesis by (auto intro: replayStep_trans)
    next
      case (Return r')
      with Cons.prems(1) Inr ev s1 b1 show ?thesis by simp
    qed
  qed
qed

lemma restoreTableFromPuller_pairsFrom:
  assumes "restoreTableFromPuller env t puller l = Some (r, l')"
  shows "(\<forall>kvs rg. CallIngest kvs rg \<in> set (drop (length (calls l)) (calls l'))
            \<longrightarrow> set kvs \<subseteq> pairsFrom env l t puller)
       \<and> (\<forall>tb. tableBuffers l' t = Some tb \<longrightarrow> set (KvPairs tb) \<subseteq> pairsFrom env l t puller)"
proof -
  let ?S = "pairsFrom env l t puller"
  have b: "bufferedFrom ?S t l"
    by (auto simp: bufferedFrom_def pairsFrom_def split: option.splits)
  have p: "set pairs \<subseteq> ?S"
    if "Inr item \<in> set puller" "tsInRange l (TS item)" "\<not> shouldFilter l item"
      "Append env cs ti item = Inr pairs" for item cs ti pairs
  proof
    fix x assume "x \<in> set pairs"
    with that show "x \<in> ?S" unfolding pairsFrom_def by blast
  qed
  have "replayStep (ingestedFrom ?S) l l' \<and> bufferedFrom ?S t l'"
    by (rule restoreTableFromPuller_from [OF assms b]) (rule p)
  then have s: "list_all (ingestedFrom ?S) (drop (length (calls l)) (calls l'))"
    and b': "bufferedFrom ?S t l'" by (auto dest: replayStep_newCalls)
  have "set kvs \<subseteq> ?S" if "CallIngest kvs rg \<in> set (drop (length (calls l)) (calls l'))" for kvs rg
  proof -
    from s that have "ingestedFrom ?S (CallIngest kvs rg)" by (simp add: list_all_iff)
    then show ?thesis by (simp add: ingestedFrom_def)
  qed
  moreover have "set (KvPairs tb) \<subseteq> ?S" if "tableBuffers l' t = Some tb" for tb
    using b' that by (simp add: bufferedFrom_def)
  ultimately show ?thesis by blast
qed


section \<open>The claims on the replay loop\<close>

text \<open>C1. No row-change event whose commitTS lies outside \<open>[startTS, endTS]\<close> reaches the
  row encoder, so no pair derived from it is appended to a buffer or ingested. An event
  with commitTS below \<open>startTS\<close> is discarded and pulling continues with the state
  unchanged. The first event with commitTS above \<open>endTS\<close> makes the worker flush the
  pending buffer and stop: it returns what \<open>applyKVChanges\<close> returns, whatever the event and
  the rest of the puller are. In every run of the worker that returns, each call of
  \<open>Append\<close> is for an event inside the window, which stays the same, and every pair handed
  to the ingester or left in the buffer of the table is in \<open>pairsFrom\<close>: it was pending in
  that buffer at the start, or the row encoder made it for an event of the puller with
  commitTS inside the window.\<close>

theorem rows_outside_window_never_appended:
  "(TS item < startTS l \<longrightarrow>
      restoreTableFromPuller env t (Inr item # puller) l = restoreTableFromPuller env t puller l)
   \<and> (startTS l \<le> TS item \<and> endTS l < TS item \<longrightarrow>
      restoreTableFromPuller env t (Inr item # puller) l = applyKVChanges env t l)
   \<and> (restoreTableFromPuller env t puller l = Some (r, l') \<longrightarrow>
        startTS l' = startTS l \<and> endTS l' = endTS l
        \<and> (\<exists>cs. calls l' = calls l @ cs
              \<and> (\<forall>t' ev. CallAppend t' ev \<in> set cs \<longrightarrow> startTS l \<le> TS ev \<and> TS ev \<le> endTS l)))
   \<and> (restoreTableFromPuller env t puller l = Some (r, l')
        \<and> CallIngest kvs rg \<in> set (drop (length (calls l)) (calls l'))
      \<longrightarrow> set kvs \<subseteq> pairsFrom env l t puller)
   \<and> (restoreTableFromPuller env t puller l = Some (r, l') \<and> tableBuffers l' t = Some tb
      \<longrightarrow> set (KvPairs tb) \<subseteq> pairsFrom env l t puller)
   \<and> (p \<in> pairsFrom env l t puller \<longrightarrow>
        (\<exists>tb. tableBuffers l t = Some tb \<and> p \<in> set (KvPairs tb))
        \<or> (\<exists>ev cs ti pairs. Inr ev \<in> set puller \<and> startTS l \<le> TS ev \<and> TS ev \<le> endTS l
              \<and> Append env cs ti ev = Inr pairs \<and> p \<in> set pairs))"
proof (intro conjI impI)
  assume "TS item < startTS l"
  then show "restoreTableFromPuller env t (Inr item # puller) l = restoreTableFromPuller env t puller l"
    by (simp add: restoreEvent_def)
next
  assume "startTS l \<le> TS item \<and> endTS l < TS item"
  then show "restoreTableFromPuller env t (Inr item # puller) l = applyKVChanges env t l"
    by (cases "applyKVChanges env t l") (auto simp: restoreEvent_def)
next
  assume a: "restoreTableFromPuller env t puller l = Some (r, l')"
  from restoreTableFromPuller_step [OF a] show "startTS l' = startTS l" "endTS l' = endTS l"
    by (simp_all add: replayStep_def)
  from restoreTableFromPuller_step [OF a] obtain cs
    where cs: "calls l' = calls l @ cs" "list_all (appendAllowed l) cs"
    by (auto simp: replayStep_def)
  have "startTS l \<le> TS ev \<and> TS ev \<le> endTS l" if "CallAppend t' ev \<in> set cs" for t' ev
  proof -
    from cs(2) that have "appendAllowed l (CallAppend t' ev)" by (simp add: list_all_iff)
    then show ?thesis by (simp add: appendAllowed_def tsInRange_def)
  qed
  with cs(1)
  show "\<exists>cs. calls l' = calls l @ cs
              \<and> (\<forall>t' ev. CallAppend t' ev \<in> set cs \<longrightarrow> startTS l \<le> TS ev \<and> TS ev \<le> endTS l)"
    by blast
next
  assume a: "restoreTableFromPuller env t puller l = Some (r, l')
        \<and> CallIngest kvs rg \<in> set (drop (length (calls l)) (calls l'))"
  from restoreTableFromPuller_pairsFrom [OF a [THEN conjunct1]] a [THEN conjunct2]
  show "set kvs \<subseteq> pairsFrom env l t puller" by blast
next
  assume a: "restoreTableFromPuller env t puller l = Some (r, l') \<and> tableBuffers l' t = Some tb"
  from restoreTableFromPuller_pairsFrom [OF a [THEN conjunct1]] a [THEN conjunct2]
  show "set (KvPairs tb) \<subseteq> pairsFrom env l t puller" by blast
next
  assume "p \<in> pairsFrom env l t puller"
  then show "(\<exists>tb. tableBuffers l t = Some tb \<and> p \<in> set (KvPairs tb))
        \<or> (\<exists>ev cs ti pairs. Inr ev \<in> set puller \<and> startTS l \<le> TS ev \<and> TS ev \<le> endTS l
              \<and> Append env cs ti ev = Inr pairs \<and> p \<in> set pairs)"
    unfolding pairsFrom_def tsInRange_def by blast
qed


theorem rows_outside_window_never_appended_witness:
  "TS (exampleRow 50) < startTS exampleClient
   \<and> restoreTableFromPuller exampleEnv 1 [Inr (exampleRow 50), Inr (exampleRow 150)] exampleClient
       = restoreTableFromPuller exampleEnv 1 [Inr (exampleRow 150)] exampleClient
   \<and> startTS exampleClient \<le> TS (exampleRow 250) \<and> endTS exampleClient < TS (exampleRow 250)
   \<and> restoreTableFromPuller exampleEnv 1 [Inr (exampleRow 250), Inr (exampleRow 150)] exampleClient
       = applyKVChanges exampleEnv 1 exampleClient
   \<and> restoreTableFromPuller exampleEnv 1
        [Inr (exampleRow 50), Inr (exampleRow 150), Inr (exampleRow 250), Inr (exampleRow 160)]
        exampleClient
       = Some (None, exampleClient\<lparr>calls :=
           [CallAppend 1 (exampleRow 150),
            CallIngest [\<lparr>Key = k1, Val = v1\<rparr>] \<lparr>Start = k1, End = k1 @ [0]\<rparr>]\<rparr>)
   \<and> (\<exists>cs. [CallAppend 1 (exampleRow 150),
              CallIngest [\<lparr>Key = k1, Val = v1\<rparr>] \<lparr>Start = k1, End = k1 @ [0]\<rparr>]
             = calls exampleClient @ cs
         \<and> (\<forall>t' ev. CallAppend t' ev \<in> set cs \<longrightarrow> 100 \<le> TS ev \<and> TS ev \<le> 200))
   \<and> CallIngest [\<lparr>Key = k1, Val = v1\<rparr>] \<lparr>Start = k1, End = k1 @ [0]\<rparr>
       \<in> set (drop (length (calls exampleClient))
           [CallAppend 1 (exampleRow 150),
            CallIngest [\<lparr>Key = k1, Val = v1\<rparr>] \<lparr>Start = k1, End = k1 @ [0]\<rparr>])
   \<and> set [\<lparr>Key = k1, Val = v1\<rparr>]
       \<subseteq> pairsFrom exampleEnv exampleClient 1
           [Inr (exampleRow 50), Inr (exampleRow 150), Inr (exampleRow 250), Inr (exampleRow 160)]"
  using rows_outside_window_never_appended
      [where item = "exampleRow 50" and l = exampleClient and env = exampleEnv and t = 1
        and puller = "[Inr (exampleRow 150)]"]
    rows_outside_window_never_appended
      [where item = "exampleRow 250" and l = exampleClient and env = exampleEnv and t = 1
        and puller = "[Inr (exampleRow 150)]"]
    rows_outside_window_never_appended
      [where l = exampleClient and env = exampleEnv and t = 1
        and puller = "[Inr (exampleRow 50), Inr (exampleRow 150), Inr (exampleRow 250), Inr (exampleRow 160)]"
        and r = None
        and l' = "exampleClient\<lparr>calls :=
           [CallAppend 1 (exampleRow 150),
            CallIngest [\<lparr>Key = k1, Val = v1\<rparr>] \<lparr>Start = k1, End = k1 @ [0]\<rparr>]\<rparr>"
        and kvs = "[\<lparr>Key = k1, Val = v1\<rparr>]" and rg = "\<lparr>Start = k1, End = k1 @ [0]\<rparr>"]
  by (simp add: replay_defs example_defs)

text \<open>C3. Where a drop fence \<open>T\<close> is recorded for the schema of an event and the commitTS
  of the event is below \<open>T\<close>, the loop body makes no call but the ingestion calls of the
  flush: the event reaches neither the DDL executor nor the row encoder. In every run of
  the worker that returns, for any sequence of events, the fences are the same at the end
  and each call of \<open>Append\<close> is for an event that is not below the fence of its schema;
  every pair handed to the ingester was pending in the buffer of the table at the start,
  or the row encoder made it for an event of the puller that is not below the fence of its
  schema.\<close>

theorem drop_fence_filters_older_events:
  "(dropTSMap l (Schema item) = Some T \<and> TS item < T \<and> restoreEvent env t item l = Some (c, l') \<longrightarrow>
      (\<exists>cs. calls l' = calls l @ cs \<and> (\<forall>x \<in> set cs. \<exists>kvs rg. x = CallIngest kvs rg)))
   \<and> (restoreTableFromPuller env t puller l = Some (r, l') \<longrightarrow>
        dropTSMap l' = dropTSMap l
        \<and> (\<exists>cs. calls l' = calls l @ cs
              \<and> (\<forall>t' ev T. CallAppend t' ev \<in> set cs \<and> dropTSMap l (Schema ev) = Some T \<longrightarrow> T \<le> TS ev)))
   \<and> (restoreTableFromPuller env t puller l = Some (r, l')
        \<and> CallIngest kvs rg \<in> set (drop (length (calls l)) (calls l')) \<and> p \<in> set kvs
      \<longrightarrow> (\<exists>tb. tableBuffers l t = Some tb \<and> p \<in> set (KvPairs tb))
        \<or> (\<exists>ev cs ti pairs. Inr ev \<in> set puller
              \<and> (\<forall>T. dropTSMap l (Schema ev) = Some T \<longrightarrow> T \<le> TS ev)
              \<and> Append env cs ti ev = Inr pairs \<and> p \<in> set pairs))"
proof (intro conjI impI)
  assume a: "dropTSMap l (Schema item) = Some T \<and> TS item < T \<and> restoreEvent env t item l = Some (c, l')"
  then have f: "shouldFilter l item" by (simp add: shouldFilter_def)
  have "replayStep isIngest l l'"
  proof (cases "startTS l > TS item")
    case True
    with a show ?thesis by (simp add: restoreEvent_def replayStep_refl)
  next
    case False
    with a f obtain r where "applyKVChanges env t l = Some (r, l')"
      by (auto simp: restoreEvent_def split: option.splits if_splits)
    then show ?thesis by (rule applyKVChanges_stepD)
  qed
  then show "\<exists>cs. calls l' = calls l @ cs \<and> (\<forall>x \<in> set cs. \<exists>kvs rg. x = CallIngest kvs rg)"
    by (auto simp: replayStep_def list_all_iff isIngest_iff)
next
  assume a: "restoreTableFromPuller env t puller l = Some (r, l')"
  from restoreTableFromPuller_step [OF a] show "dropTSMap l' = dropTSMap l"
    by (simp add: replayStep_def)
  from restoreTableFromPuller_step [OF a] obtain cs
    where cs: "calls l' = calls l @ cs" "list_all (appendAllowed l) cs"
    by (auto simp: replayStep_def)
  have "T \<le> TS ev" if "CallAppend t' ev \<in> set cs" "dropTSMap l (Schema ev) = Some T" for t' ev T
  proof -
    from cs(2) that(1) have "appendAllowed l (CallAppend t' ev)" by (simp add: list_all_iff)
    with that(2) show ?thesis
      by (simp add: appendAllowed_def shouldFilter_def leI split: if_splits)
  qed
  with cs(1)
  show "\<exists>cs. calls l' = calls l @ cs
              \<and> (\<forall>t' ev T. CallAppend t' ev \<in> set cs \<and> dropTSMap l (Schema ev) = Some T \<longrightarrow> T \<le> TS ev)"
    by blast
next
  assume a: "restoreTableFromPuller env t puller l = Some (r, l')
        \<and> CallIngest kvs rg \<in> set (drop (length (calls l)) (calls l')) \<and> p \<in> set kvs"
  from restoreTableFromPuller_pairsFrom [OF a [THEN conjunct1]] a [THEN conjunct2]
  have "p \<in> pairsFrom env l t puller" by blast
  then consider (pending) tb where "tableBuffers l t = Some tb" "p \<in> set (KvPairs tb)"
    | (made) ev cs ti pairs where "Inr ev \<in> set puller" "\<not> shouldFilter l ev"
        "Append env cs ti ev = Inr pairs" "p \<in> set pairs"
    unfolding pairsFrom_def by blast
  then show "(\<exists>tb. tableBuffers l t = Some tb \<and> p \<in> set (KvPairs tb))
        \<or> (\<exists>ev cs ti pairs. Inr ev \<in> set puller
              \<and> (\<forall>T. dropTSMap l (Schema ev) = Some T \<longrightarrow> T \<le> TS ev)
              \<and> Append env cs ti ev = Inr pairs \<and> p \<in> set pairs)"
  proof cases
    case pending
    then show ?thesis by blast
  next
    case made
    from made(2) have "\<forall>T. dropTSMap l (Schema ev) = Some T \<longrightarrow> T \<le> TS ev"
      by (auto simp: shouldFilter_def not_less split: option.splits if_splits)
    with made(1,3,4) show ?thesis by blast
  qed
qed


theorem drop_fence_filters_older_events_witness:
  "dropTSMap (exampleClient\<lparr>dropTSMap := [''test'' \<mapsto> 180]\<rparr>) (Schema (exampleRow 150)) = Some 180
   \<and> TS (exampleRow 150) < 180
   \<and> restoreEvent exampleEnv 1 (exampleRow 150) (exampleClient\<lparr>dropTSMap := [''test'' \<mapsto> 180]\<rparr>)
       = Some (Continue, exampleClient\<lparr>dropTSMap := [''test'' \<mapsto> 180]\<rparr>)
   \<and> restoreTableFromPuller exampleEnv 1 [Inr (exampleRow 190), Inr (exampleRow 150)]
        (exampleClient\<lparr>dropTSMap := [''test'' \<mapsto> 180]\<rparr>)
       = Some (None, exampleClient\<lparr>dropTSMap := [''test'' \<mapsto> 180], calls :=
           [CallAppend 1 (exampleRow 190),
            CallIngest [\<lparr>Key = k1, Val = v1\<rparr>] \<lparr>Start = k1, End = k1 @ [0]\<rparr>]\<rparr>)
   \<and> (\<exists>cs. [CallAppend 1 (exampleRow 190),
              CallIngest [\<lparr>Key = k1, Val = v1\<rparr>] \<lparr>Start = k1, End = k1 @ [0]\<rparr>] = [] @ cs
         \<and> (\<forall>t' ev T. CallAppend t' ev \<in> set cs \<and> [''test'' \<mapsto> 180] (Schema ev) = Some T
               \<longrightarrow> T \<le> TS ev))
   \<and> CallIngest [\<lparr>Key = k1, Val = v1\<rparr>] \<lparr>Start = k1, End = k1 @ [0]\<rparr>
       \<in> set (drop (length (calls exampleClient))
           [CallAppend 1 (exampleRow 190),
            CallIngest [\<lparr>Key = k1, Val = v1\<rparr>] \<lparr>Start = k1, End = k1 @ [0]\<rparr>])
   \<and> ((\<exists>tb. tableBuffers (exampleClient\<lparr>dropTSMap := [''test'' \<mapsto> 180]\<rparr>) 1 = Some tb
             \<and> \<lparr>Key = k1, Val = v1\<rparr> \<in> set (KvPairs tb))
        \<or> (\<exists>ev cs ti pairs. Inr ev \<in> set [Inr (exampleRow 190), Inr (exampleRow 150)]
              \<and> (\<forall>T. dropTSMap (exampleClient\<lparr>dropTSMap := [''test'' \<mapsto> 180]\<rparr>) (Schema ev) = Some T
                     \<longrightarrow> T \<le> TS ev)
              \<and> Append exampleEnv cs ti ev = Inr pairs \<and> \<lparr>Key = k1, Val = v1\<rparr> \<in> set pairs))"
  using drop_fence_filters_older_events
      [where l = "exampleClient\<lparr>dropTSMap := [''test'' \<mapsto> 180]\<rparr>" and item = "exampleRow 150"
        and T = 180 and env = exampleEnv and t = 1 and c = Continue
        and l' = "exampleClient\<lparr>dropTSMap := [''test'' \<mapsto> 180]\<rparr>"]
    drop_fence_filters_older_events
      [where l = "exampleClient\<lparr>dropTSMap := [''test'' \<mapsto> 180]\<rparr>" and env = exampleEnv and t = 1
        and puller = "[Inr (exampleRow 190), Inr (exampleRow 150)]" and r = None
        and l' = "exampleClient\<lparr>dropTSMap := [''test'' \<mapsto> 180], calls :=
           [CallAppend 1 (exampleRow 190),
            CallIngest [\<lparr>Key = k1, Val = v1\<rparr>] \<lparr>Start = k1, End = k1 @ [0]\<rparr>]\<rparr>"
        and kvs = "[\<lparr>Key = k1, Val = v1\<rparr>]" and rg = "\<lparr>Start = k1, End = k1 @ [0]\<rparr>"
        and p = "\<lparr>Key = k1, Val = v1\<rparr>"]
  by (simp add: replay_defs example_defs)






text \<open>C8. The mutex is not released where a statement fails: the schema switch is
  accepted, the DDL statement returns an error, and the worker returns that error with
  \<open>ddlLock\<close> still held.\<close>

theorem ddl_error_leaves_lock_held:
  "restoreTableFromPuller exampleEnvDDLFails 1 [Inr exampleAlterTable] exampleClient
     = Some (Some (ErrCollaborator 1),
         exampleClient\<lparr>ddlLock := True,
           calls := [CallExecute ''use test'', CallExecute ''alter table t1 add column c int'']\<rparr>)"
  by (simp add: replay_defs example_defs)

section \<open>RestoreLogData: the window and the database-level DDL\<close>

lemma inWindowDBQueries_cong:
  "sameWindow l l' \<Longrightarrow> inWindowDBQueries l' events = inWindowDBQueries l events"
  by (induction l events rule: inWindowDBQueries.induct)
    (auto simp: sameWindow_def tsInRange_def split: ItemData.splits)

lemma doDBDDLJob_events_frame:
  "doDBDDLJob_events env events l = (r, l') \<Longrightarrow>
     sameWindow l l' \<and> (\<exists>qs. calls l' = calls l @ map CallExecute qs)"
proof (induction events arbitrary: l)
  case Nil
  then show ?case by (simp add: sameWindow_def)
next
  case (Cons a events)
  show ?case
  proof (cases a)
    case (Inl e)
    with Cons.prems show ?thesis by (simp add: sameWindow_def)
  next
    case (Inr item)
    show ?thesis
    proof (cases "Data item")
      case (RowData x)
      with Cons.prems Inr show ?thesis by (simp add: sameWindow_def)
    next
      case (DDLData ddl)
      show ?thesis
      proof (cases "isDBRelatedDDL ddl \<and> tsInRange l (TS item)")
        case False
        with Cons.prems Inr DDLData have "doDBDDLJob_events env events l = (r, l')" by auto
        then show ?thesis by (rule Cons.IH)
      next
        case True
        show ?thesis
        proof (cases "Execute env (calls l) (Query ddl)")
          case (Some e)
          with Cons.prems Inr DDLData True have "l' = logCall (CallExecute (Query ddl)) l" by simp
          then show ?thesis
            by (auto simp: sameWindow_def logCall_def intro: exI [of _ "[Query ddl]"])
        next
          case None
          let ?l1 = "logCall (CallExecute (Query ddl)) l"
          let ?l2 = "if Type ddl = ActionDropSchema
                     then ?l1\<lparr>dropTSMap := (dropTSMap ?l1)(Schema item \<mapsto> TS item)\<rparr> else ?l1"
          from Cons.prems Inr DDLData True None
          have "doDBDDLJob_events env events ?l2 = (r, l')" by (simp add: Let_def)
          from Cons.IH [OF this] obtain qs where "sameWindow ?l2 l'"
            and "calls l' = calls ?l2 @ map CallExecute qs" by blast
          then show ?thesis
            by (auto simp: sameWindow_def logCall_def intro: exI [of _ "Query ddl # qs"])
        qed
      qed
    qed
  qed
qed

lemma doDBDDLJob_events_calls:
  "doDBDDLJob_events env events l = (None, l') \<Longrightarrow>
     calls l' = calls l @ map CallExecute (inWindowDBQueries l events)"
proof (induction events arbitrary: l)
  case Nil
  then show ?case by simp
next
  case (Cons a events)
  show ?case
  proof (cases a)
    case (Inl e)
    with Cons.prems show ?thesis by simp
  next
    case (Inr item)
    show ?thesis
    proof (cases "Data item")
      case (RowData x)
      with Cons.prems Inr show ?thesis by simp
    next
      case (DDLData ddl)
      show ?thesis
      proof (cases "isDBRelatedDDL ddl \<and> tsInRange l (TS item)")
        case False
        with Cons.prems Inr DDLData have "doDBDDLJob_events env events l = (None, l')" by auto
        from Cons.IH [OF this] Inr DDLData False show ?thesis by auto
      next
        case True
        show ?thesis
        proof (cases "Execute env (calls l) (Query ddl)")
          case (Some e)
          with Cons.prems Inr DDLData True show ?thesis by simp
        next
          case None
          let ?l1 = "logCall (CallExecute (Query ddl)) l"
          let ?l2 = "if Type ddl = ActionDropSchema
                     then ?l1\<lparr>dropTSMap := (dropTSMap ?l1)(Schema item \<mapsto> TS item)\<rparr> else ?l1"
          have sw: "sameWindow l ?l2" by (simp add: sameWindow_def logCall_def)
          from Cons.prems Inr DDLData True None
          have "doDBDDLJob_events env events ?l2 = (None, l')" by (simp add: Let_def)
          from Cons.IH [OF this] have "calls l' = calls ?l2 @ map CallExecute (inWindowDBQueries l events)"
            by (simp only: inWindowDBQueries_cong [OF sw])
          with Inr DDLData True show ?thesis by (simp add: logCall_def)
        qed
      qed
    qed
  qed
qed

lemma doDBDDLJob_files_frame:
  "doDBDDLJob_files env paths l = (r, l') \<Longrightarrow>
     sameWindow l l' \<and> (\<exists>qs. calls l' = calls l @ map CallExecute qs)"
proof (induction paths arbitrary: l)
  case Nil
  then show ?case by (simp add: sameWindow_def)
next
  case (Cons path paths)
  show ?case
  proof (cases "ReadFile env path")
    case (Inl e)
    with Cons.prems show ?thesis by (simp add: sameWindow_def)
  next
    case (Inr data)
    note rd = this
    show ?thesis
    proof (cases "NewJSONEventBatchDecoder env data")
      case (Inl e)
      with Cons.prems rd show ?thesis by (simp add: sameWindow_def)
    next
      case (Inr events)
      obtain r1 l1 where ev: "doDBDDLJob_events env events l = (r1, l1)"
        by (cases "doDBDDLJob_events env events l") auto
      from doDBDDLJob_events_frame [OF ev] obtain qs1
        where f1: "sameWindow l l1" "calls l1 = calls l @ map CallExecute qs1" by blast
      show ?thesis
      proof (cases r1)
        case (Some e)
        with Cons.prems rd Inr ev f1 show ?thesis by auto
      next
        case None
        with Cons.prems rd Inr ev have "doDBDDLJob_files env paths l1 = (r, l')" by simp
        from Cons.IH [OF this] obtain qs2
          where "sameWindow l1 l'" "calls l' = calls l1 @ map CallExecute qs2" by blast
        with f1 show ?thesis
          by (auto simp: sameWindow_def intro: exI [of _ "qs1 @ qs2"])
      qed
    qed
  qed
qed

lemma doDBDDLJob_files_calls:
  "doDBDDLJob_files env paths l = (None, l') \<Longrightarrow>
     calls l' = calls l @ map CallExecute (concat (map (\<lambda>path. inWindowDBQueries l (eventsOf env path)) paths))"
proof (induction paths arbitrary: l)
  case Nil
  then show ?case by simp
next
  case (Cons path paths)
  from Cons.prems obtain data where rd: "ReadFile env path = Inr data"
    by (cases "ReadFile env path") auto
  from Cons.prems rd obtain events where dc: "NewJSONEventBatchDecoder env data = Inr events"
    by (cases "NewJSONEventBatchDecoder env data") auto
  from Cons.prems rd dc obtain l1 where ev: "doDBDDLJob_events env events l = (None, l1)"
    and rest: "doDBDDLJob_files env paths l1 = (None, l')"
    by (auto split: prod.splits option.splits)
  from doDBDDLJob_events_frame [OF ev] have sw: "sameWindow l l1" by blast
  have e: "eventsOf env path = events" by (simp add: eventsOf_def rd dc)
  from Cons.IH [OF rest] doDBDDLJob_events_calls [OF ev] show ?case
    by (simp add: e inWindowDBQueries_cong [OF sw])
qed

lemma restoreTables_frame:
  "restoreTables env ps l = Some (r, l') \<Longrightarrow>
     sameWindow l l' \<and> dropTSMap l' = dropTSMap l \<and> (\<exists>cs. calls l' = calls l @ cs)"
proof (induction ps arbitrary: l r)
  case Nil
  then show ?case by (simp add: sameWindow_def)
next
  case (Cons p ps)
  obtain t puller where p: "p = (t, puller)" by (cases p)
  let ?l0 = "logCall (CallStartWorker t) l"
  from Cons.prems p obtain r1 l1 r2
    where w: "restoreTableFromPuller env t puller ?l0 = Some (r1, l1)"
      and rest: "restoreTables env ps l1 = Some (r2, l')"
    by (auto split: option.splits)
  from restoreTableFromPuller_step [OF w]
  have f1: "sameWindow l l1" "dropTSMap l1 = dropTSMap l" "\<exists>cs. calls l1 = calls l @ cs"
    by (auto simp: replayStep_def sameWindow_def logCall_def)
  from Cons.IH [OF rest] f1 show ?case by (auto simp: sameWindow_def)
qed


lemma doDBDDLJob_files_eq: "doDBDDLJob env ddls l = doDBDDLJob_files env ddls l"
  by (cases ddls) (simp_all add: doDBDDLJob_def)

lemma inWindowDBQueries_mem:
  "Inr item \<in> set events \<Longrightarrow> Data item = DDLData ddl \<Longrightarrow> isDBRelatedDDL ddl
     \<Longrightarrow> tsInRange l (TS item) \<Longrightarrow> Query ddl \<in> set (inWindowDBQueries l events)"
  by (induction l events rule: inWindowDBQueries.induct) (auto split: ItemData.splits)

lemma RestoreLogData_replay_frame:
  assumes "RestoreLogData_replay env l = Some (r, l')"
  shows "sameWindow l l'"
proof (cases "collectDDLFiles env l")
  case (Inl e)
  with assms show ?thesis by (simp add: RestoreLogData_replay_def sameWindow_def)
next
  case (Inr ddls)
  obtain r1 l1 where dj: "doDBDDLJob_files env ddls l = (r1, l1)"
    by (cases "doDBDDLJob_files env ddls l") auto
  from doDBDDLJob_files_frame [OF dj] have f1: "sameWindow l l1" by blast
  show ?thesis
  proof (cases r1)
    case (Some e)
    with assms Inr dj f1 show ?thesis by (simp add: RestoreLogData_replay_def doDBDDLJob_files_eq)
  next
    case None
    note r1 = this
    show ?thesis
    proof (cases "tablePullers env ddls l1")
      case (Inl e)
      with assms Inr dj r1 f1 show ?thesis
        by (simp add: RestoreLogData_replay_def doDBDDLJob_files_eq)
    next
      case (Inr tables)
      with assms \<open>collectDDLFiles env l = Inr ddls\<close> dj r1 obtain ps b
        where "restoreTables env ps (l1\<lparr>tableBuffers := b\<rparr>) = Some (r, l')"
        by (auto simp: RestoreLogData_replay_def doDBDDLJob_files_eq)
      from restoreTables_frame [OF this] f1 show ?thesis by (auto simp: sameWindow_def)
    qed
  qed
qed

lemma collectDDLFiles_walk_filter:
  "collectDDLFiles_walk l paths acc = Inr ddlFiles \<Longrightarrow>
     ddlFiles = acc @ filter (\<lambda>p. NeedRestoreDDL l (Base p) = Inr True) paths"
proof (induction paths arbitrary: acc)
  case Nil
  then show ?case by simp
next
  case (Cons a paths)
  show ?case
  proof (cases "NeedRestoreDDL l (Base a)")
    case (Inl e)
    with Cons.prems show ?thesis by simp
  next
    case (Inr b)
    with Cons.prems
    have "collectDDLFiles_walk l paths (if b then acc @ [a] else acc) = Inr ddlFiles" by simp
    from Cons.IH [OF this] Inr show ?thesis by (cases b) simp_all
  qed
qed

lemma collectDDLFiles_walk_total:
  "(\<exists>ddlFiles. collectDDLFiles_walk l paths acc = Inr ddlFiles)
     \<longleftrightarrow> (\<forall>p \<in> set paths. \<forall>e. NeedRestoreDDL l (Base p) \<noteq> Inl e)"
  by (induction paths arbitrary: acc) (auto split: sum.splits if_splits)

lemma NeedRestoreDDL_True_iff:
  "NeedRestoreDDL l f = Inr True \<longleftrightarrow>
     (\<exists>s n. Split f (CHR ''.'') = [''ddl'', s] \<and> ParseUint s = Inr n \<and> maxUint64 - n \<le> endTS l)"
proof
  assume a: "NeedRestoreDDL l f = Inr True"
  then have len: "length (Split f (CHR ''.'')) = 2" and pre: "Split f (CHR ''.'') ! 0 = ''ddl''"
    by (auto simp: NeedRestoreDDL_def Let_def ddlFilePrefix_def split: if_splits)
  from len obtain a b where ab: "Split f (CHR ''.'') = [a, b]"
    by (cases "Split f (CHR ''.'')"; cases "tl (Split f (CHR ''.''))") auto
  with pre have "a = ''ddl''" by simp
  with a ab show "\<exists>s n. Split f (CHR ''.'') = [''ddl'', s] \<and> ParseUint s = Inr n \<and> maxUint64 - n \<le> endTS l"
    by (auto simp: NeedRestoreDDL_def Let_def ddlFilePrefix_def split: if_splits sum.splits)
next
  assume "\<exists>s n. Split f (CHR ''.'') = [''ddl'', s] \<and> ParseUint s = Inr n \<and> maxUint64 - n \<le> endTS l"
  then show "NeedRestoreDDL l f = Inr True"
    by (auto simp: NeedRestoreDDL_def Let_def ddlFilePrefix_def)
qed

lemma collectDDLFiles_Inr:
  assumes "collectDDLFiles env l = Inr ddls"
  shows "\<exists>paths. WalkDir env ddlEventsDir = Inr paths
           \<and> ddls = rev (sort (filter (\<lambda>p. NeedRestoreDDL l (Base p) = Inr True) paths))"
proof -
  from assms obtain paths ddlFiles where w: "WalkDir env ddlEventsDir = Inr paths"
    and c: "collectDDLFiles_walk l paths [] = Inr ddlFiles" and d: "ddls = rev (sort ddlFiles)"
    by (auto simp: collectDDLFiles_def split: sum.splits)
  from collectDDLFiles_walk_filter [OF c] w d show ?thesis by simp
qed

text \<open>For strings of decimal digits of the same length the byte order is the order of
  the numbers, so the decoded commitTS \<open>maxUint64 - n\<close> falls as the name rises.\<close>

lemma decimal_acc: "foldl (\<lambda>a c. a * 10 + digitVal c) n s = n * 10 ^ length s + foldl (\<lambda>a c. a * 10 + digitVal c) 0 s"
proof (induction s arbitrary: n)
  case Nil
  show ?case by simp
next
  case (Cons c s)
  have "foldl (\<lambda>a c. a * 10 + digitVal c) n (c # s) = foldl (\<lambda>a c. a * 10 + digitVal c) (n * 10 + digitVal c) s" by simp
  also have "\<dots> = (n * 10 + digitVal c) * 10 ^ length s + foldl (\<lambda>a c. a * 10 + digitVal c) 0 s" by (rule Cons.IH)
  also have "foldl (\<lambda>a c. a * 10 + digitVal c) 0 (c # s) = digitVal c * 10 ^ length s + foldl (\<lambda>a c. a * 10 + digitVal c) 0 s"
    using Cons.IH [of "digitVal c"] by simp
  then have "(n * 10 + digitVal c) * 10 ^ length s + foldl (\<lambda>a c. a * 10 + digitVal c) 0 s = n * 10 ^ length (c # s) + foldl (\<lambda>a c. a * 10 + digitVal c) 0 (c # s)"
    by (simp add: algebra_simps)
  finally show ?case .
qed

lemma decimal_less: "list_all isDigit s \<Longrightarrow> foldl (\<lambda>a c. a * 10 + digitVal c) 0 s < 10 ^ length s"
proof (induction s rule: rev_induct)
  case Nil
  show ?case by simp
next
  case (snoc c s)
  then have "digitVal c \<le> 9" by (auto simp: isDigit_def digitVal_def)
  moreover from snoc have "foldl (\<lambda>a c. a * 10 + digitVal c) 0 s + 1 \<le> 10 ^ length s" by simp
  then have "(foldl (\<lambda>a c. a * 10 + digitVal c) 0 s + 1) * 10 \<le> 10 ^ length s * 10" by (rule mult_le_mono1)
  ultimately show ?case by simp
qed

lemma digits_le_decimal:
  "length s = length t \<Longrightarrow> list_all isDigit s \<Longrightarrow> list_all isDigit t \<Longrightarrow> s \<le> t
     \<Longrightarrow> foldl (\<lambda>a c. a * 10 + digitVal c) 0 s \<le> foldl (\<lambda>a c. a * 10 + digitVal c) 0 t"
proof (induction s t rule: list_induct2)
  case Nil
  show ?case by simp
next
  case (Cons c s c' t)
  have vs: "foldl (\<lambda>a c. a * 10 + digitVal c) 0 (c # s) = digitVal c * 10 ^ length s + foldl (\<lambda>a c. a * 10 + digitVal c) 0 s"
    using decimal_acc [of "digitVal c" s] by simp
  have vt: "foldl (\<lambda>a c. a * 10 + digitVal c) 0 (c' # t) = digitVal c' * 10 ^ length s + foldl (\<lambda>a c. a * 10 + digitVal c) 0 t"
    using decimal_acc [of "digitVal c'" t] Cons.hyps by simp
  from Cons.prems(3) consider (less) "c < c'" | (eq) "c = c'" "s \<le> t" by auto
  then show ?case
  proof cases
    case less
    with Cons.prems(1,2) have "digitVal c + 1 \<le> digitVal c'"
      by (auto simp: isDigit_def digitVal_def less_char_def)
    then have "(digitVal c + 1) * 10 ^ length s \<le> digitVal c' * 10 ^ length s"
      by (rule mult_le_mono1)
    moreover from Cons.prems(1) have "foldl (\<lambda>a c. a * 10 + digitVal c) 0 s < 10 ^ length s" by (simp add: decimal_less)
    ultimately show ?thesis unfolding vs vt by simp
  next
    case eq
    with Cons have "foldl (\<lambda>a c. a * 10 + digitVal c) 0 s \<le> foldl (\<lambda>a c. a * 10 + digitVal c) 0 t" by simp
    with eq show ?thesis unfolding vs vt by simp
  qed
qed

lemma append_le_cancel: "(d @ x \<le> d @ y) \<longleftrightarrow> (x \<le> (y :: string))"
  by (induction d) auto

lemma ParseUint_decimal:
  "ParseUint s = Inr n \<Longrightarrow> list_all isDigit s \<and> foldl (\<lambda>a c. a * 10 + digitVal c) 0 s < 2 ^ 64 \<and> n = of_nat (foldl (\<lambda>a c. a * 10 + digitVal c) 0 s)"
proof -
  assume a: "ParseUint s = Inr n"
  then obtain m where m: "ParseUint_loop 0 s = Inr m" and n: "n = of_nat m"
    by (auto simp: ParseUint_def split: if_splits sum.splits)
  from ParseUint_loop_digits [OF m] ParseUint_loop_bound [OF m] ParseUint_loop_value [OF m] n
  show ?thesis by simp
qed

lemma decoded_mono:
  fixes n n' :: uint64
  assumes "ParseUint s = Inr n" "ParseUint s' = Inr n'" "length s = length s'" "s' \<le> s"
  shows "maxUint64 - n \<le> maxUint64 - n'"
proof -
  from ParseUint_decimal [OF assms(1)] ParseUint_decimal [OF assms(2)] assms(3,4)
  have le: "foldl (\<lambda>a c. a * 10 + digitVal c) 0 s' \<le> foldl (\<lambda>a c. a * 10 + digitVal c) 0 s" and b: "foldl (\<lambda>a c. a * 10 + digitVal c) 0 s < 2 ^ 64" "foldl (\<lambda>a c. a * 10 + digitVal c) 0 s' < 2 ^ 64"
    and n: "n = of_nat (foldl (\<lambda>a c. a * 10 + digitVal c) 0 s)" "n' = of_nat (foldl (\<lambda>a c. a * 10 + digitVal c) 0 s')"
    by (auto intro: digits_le_decimal)
  have "n' \<le> n" unfolding n using le b
    by (simp add: word_le_nat_alt unat_of_nat take_bit_nat_eq_self)
  then show ?thesis
    by (simp add: maxUint64_def word_le_minus_mono)
qed

lemma inWindowDBQueries_append:
  "inWindowDBQueries l (xs @ ys) = inWindowDBQueries l xs @ inWindowDBQueries l ys"
  by (induction l xs rule: inWindowDBQueries.induct) (auto split: ItemData.splits)

lemma inWindowDBQueries_memD:
  "q \<in> set (inWindowDBQueries l events) \<Longrightarrow>
     \<exists>item ddl. Inr item \<in> set events \<and> Data item = DDLData ddl \<and> isDBRelatedDDL ddl
        \<and> tsInRange l (TS item) \<and> q = Query ddl"
  by (induction l events rule: inWindowDBQueries.induct) (auto split: ItemData.splits if_splits)







lemmas file_defs = collectDDLFiles_def Base_def NeedRestoreDDL_def ParseUint_def isDigit_def
  digitVal_def ddlFilePrefix_def maxUint64_def ddlEventsDir_def exampleDDLPath_def
  exampleDDLPath150_def exampleDDLPath250_def

lemma example_files: "collectDDLFiles exampleEnvDDLFiles exampleClient = Inr [exampleDDLPath, exampleDDLPath150]"
  by (simp add: exampleEnvDDLFiles_def exampleEnv_def exampleClient_def file_defs)

lemma example_need:
  "NeedRestoreDDL exampleClient (Base exampleDDLPath150) = Inr True"
  "NeedRestoreDDL exampleClient (Base ''ddls/readme'') = Inr False"
  "NeedRestoreDDL exampleClient (Base exampleDDLPath250) = Inr False"
  "NeedRestoreDDL exampleClient (Base exampleDDLPath) = Inr True"
  by (simp_all add: exampleClient_def file_defs)

lemma example_files_job:
  "doDBDDLJob exampleEnvDDLFiles [exampleDDLPath, exampleDDLPath150] exampleClient
     = (None, exampleClient\<lparr>dropTSMap := [''test'' \<mapsto> 150],
          calls := [CallExecute ''alter database test charset utf8mb4'', CallExecute ''drop database test'']\<rparr>)"
  by (simp add: doDBDDLJob_def exampleEnvDDLFiles_def exampleCreateSchema_def exampleAlterSchema_def
      exampleDDLPath_def exampleDDLPath150_def replay_defs example_defs)

lemma example_files_replay:
  "RestoreLogData_replay exampleEnvDDLFiles exampleClient
     = Some (None, exampleClient\<lparr>dropTSMap := [''test'' \<mapsto> 150],
          calls := [CallExecute ''alter database test charset utf8mb4'', CallExecute ''drop database test'',
                    CallStartWorker 1, CallAppend 1 (exampleRow 150),
                    CallIngest [\<lparr>Key = k1, Val = v1\<rparr>] \<lparr>Start = k1, End = k1 @ [0]\<rparr>]\<rparr>)"
  by (simp add: RestoreLogData_replay_def example_files example_files_job)
    (simp add: exampleEnvDDLFiles_def replay_defs example_defs)

lemma example_files_events:
  "eventsOf exampleEnvDDLFiles exampleDDLPath = [Inr exampleCreateSchema, Inr exampleAlterSchema]"
  "eventsOf exampleEnvDDLFiles exampleDDLPath150 = [Inr exampleDropSchema]"
  by (simp_all add: eventsOf_def exampleEnvDDLFiles_def exampleEnv_def exampleDDLPath_def exampleDDLPath150_def)

lemma example_order_files:
  "collectDDLFiles exampleEnvDDLOrder exampleClientOpen = Inr [''ddls/ddl.9'', ''ddls/ddl.10'']"
  by (simp add: exampleEnvDDLOrder_def exampleEnv_def exampleClientOpen_def exampleClient_def file_defs)

lemma example_order_replay:
  "RestoreLogData_replay exampleEnvDDLOrder exampleClientOpen
     = Some (None, exampleClientOpen\<lparr>dropTSMap := [''test'' \<mapsto> maxUint64 - 9],
          calls := [CallExecute ''drop database test'', CallExecute ''create database test'']\<rparr>)"
  by (simp add: RestoreLogData_replay_def example_order_files)
    (simp add: doDBDDLJob_def exampleEnvDDLOrder_def exampleClientOpen_def exampleCreateSchema_def
      maxUint64_def replay_defs example_defs)








lemma example_stream:
  "collectDDLFiles exampleEnvDDLStream exampleClient = Inr [exampleDDLPath]"
  "eventsOf exampleEnvDDLStream exampleDDLPath = [Inr exampleDropSchema, Inr exampleAlterSchema]"
  "RestoreLogData_replay exampleEnvDDLStream exampleClient
     = Some (None, exampleClient\<lparr>dropTSMap := [''test'' \<mapsto> 150],
          calls := [CallExecute ''drop database test'',
                    CallExecute ''alter database test charset utf8mb4'']\<rparr>)"
  by (simp add: exampleEnvDDLStream_def exampleEnv_def exampleClient_def file_defs,
      simp add: eventsOf_def exampleEnvDDLStream_def exampleEnv_def,
      simp add: RestoreLogData_replay_def exampleEnvDDLStream_def exampleEnv_def exampleClient_def file_defs)
    (simp add: doDBDDLJob_def exampleAlterSchema_def replay_defs example_defs)

text \<open>In the examples the meta file passes the check of the window, so \<open>RestoreLogData\<close>
  is the replay on the client with the meta file loaded.\<close>

lemma example_RestoreLogData:
  "RestoreLogData exampleEnvDDLFiles exampleClient = RestoreLogData_replay exampleEnvDDLFiles exampleClient"
  "RestoreLogData exampleEnvDDLStream exampleClient = RestoreLogData_replay exampleEnvDDLStream exampleClient"
  "RestoreLogData exampleEnvTwoDrops exampleClient = RestoreLogData_replay exampleEnvTwoDrops exampleClient"
  "RestoreLogData exampleEnvTwoDropsRev exampleClient
     = RestoreLogData_replay exampleEnvTwoDropsRev exampleClient"
  "RestoreLogData exampleEnvDDLOrder (exampleClient\<lparr>endTS := maxUint64\<rparr>)
     = RestoreLogData_replay exampleEnvDDLOrder exampleClientOpen"
  by (simp_all add: RestoreLogData_def Let_def exampleEnvDDLFiles_def exampleEnvDDLStream_def
      exampleEnvTwoDrops_def exampleEnvTwoDropsRev_def exampleEnvDDLOrder_def exampleClientOpen_def
      exampleEnv_def exampleClient_def maxUint64_def metaFile_def)

lemma example_parse:
  "ParseUint ''18446744073709551525'' = Inr 18446744073709551525"
  "ParseUint ''18446744073709551465'' = Inr 18446744073709551465"
  "NeedRestoreDDL exampleClient ''ddl.18446744073709551525'' = Inr True"
  "Split ''ddl.18446744073709551365'' (CHR ''.'') = [''ddl'', ''18446744073709551365'']"
  "ParseUint ''18446744073709551365'' = Inr 18446744073709551365"
  by (simp_all add: exampleClient_def file_defs)

lemma example_files_fail:
  "collectDDLFiles (exampleEnvDDLFiles\<lparr>Execute := (\<lambda>cs stmt. Some (ErrCollaborator 3))\<rparr>) exampleClient
     = Inr [exampleDDLPath, exampleDDLPath150]"
  "doDBDDLJob (exampleEnvDDLFiles\<lparr>Execute := (\<lambda>cs stmt. Some (ErrCollaborator 3))\<rparr>)
         [exampleDDLPath, exampleDDLPath150] exampleClient
       = (Some (ErrCollaborator 3),
          exampleClient\<lparr>calls := [CallExecute ''alter database test charset utf8mb4'']\<rparr>)"
  by (simp add: exampleEnvDDLFiles_def exampleEnv_def exampleClient_def file_defs,
      simp add: doDBDDLJob_def exampleEnvDDLFiles_def exampleCreateSchema_def exampleAlterSchema_def
        exampleDDLPath_def exampleDDLPath150_def replay_defs example_defs)

lemma example_files_facts:
  "WalkDir exampleEnvDDLFiles ddlEventsDir
     = Inr [exampleDDLPath150, ''ddls/readme'', exampleDDLPath250, exampleDDLPath]"
  "exampleDDLPath150 \<le> exampleDDLPath"
  "calls exampleClient = []"
  "maxUint64 - 18446744073709551525 \<le> endTS exampleClient"
  "''ddls/ddl.18446744073709551525'' = exampleDDLPath"
  "''ddls/ddl.18446744073709551465'' = exampleDDLPath150"
  "exampleDDLPath \<noteq> exampleDDLPath150"
  "maxUint64 - 18446744073709551525 \<le> maxUint64 - (18446744073709551465 :: uint64)"
  "maxUint64 - (18446744073709551365 :: uint64) \<le> endTS exampleClient \<longleftrightarrow> False"
  "Data exampleDropSchema = DDLData \<lparr>Query = ''drop database test'', Type = ActionDropSchema\<rparr>"
  "isDBRelatedDDL \<lparr>Query = ''drop database test'', Type = ActionDropSchema\<rparr>"
  "tsInRange exampleClient (TS exampleDropSchema)"
  "inWindowDBQueries exampleClient [Inr exampleCreateSchema, Inr exampleAlterSchema]
     = [''alter database test charset utf8mb4'']"
  "inWindowDBQueries exampleClient [Inr exampleDropSchema] = [''drop database test'']"
  by (simp_all add: exampleEnvDDLFiles_def exampleEnv_def exampleClient_def exampleDropSchema_def
      exampleCreateSchema_def exampleAlterSchema_def isDBRelatedDDL_def tsInRange_def
      exampleDDLPath_def exampleDDLPath150_def exampleDDLPath250_def ddlEventsDir_def maxUint64_def)

text \<open>C2. With the meta file read and decoded to \<open>m\<close>: where \<open>startTS\<close> is above the
  resolved ts of \<open>m\<close>, \<open>RestoreLogData\<close> returns the invalid-window error and the only
  change to the client is the loaded meta (no call to a collaborator is logged); where it
  is not, no error is raised by the check and the restore goes on with \<open>endTS\<close> reduced to
  the resolved ts where it was above it. The replay that follows keeps the window.\<close>

theorem window_checked_against_resolved_ts:
  "(ReadFile env metaFile = Inr data \<and> UnmarshalMeta env data = Inr m \<and> GlobalResolvedTS m < startTS l
      \<longrightarrow> RestoreLogData env l = Some (Some ErrRestoreRTsConstrain, l\<lparr>meta := m\<rparr>))
   \<and> (ReadFile env metaFile = Inr data \<and> UnmarshalMeta env data = Inr m \<and> startTS l \<le> GlobalResolvedTS m
      \<longrightarrow> RestoreLogData env l
          = RestoreLogData_replay env (l\<lparr>meta := m, endTS := min (endTS l) (GlobalResolvedTS m)\<rparr>))
   \<and> (RestoreLogData_replay env l = Some (r, l') \<longrightarrow> startTS l' = startTS l \<and> endTS l' = endTS l)"
proof (intro conjI impI)
  assume "ReadFile env metaFile = Inr data \<and> UnmarshalMeta env data = Inr m \<and> GlobalResolvedTS m < startTS l"
  then show "RestoreLogData env l = Some (Some ErrRestoreRTsConstrain, l\<lparr>meta := m\<rparr>)"
    by (simp add: RestoreLogData_def)
next
  assume a: "ReadFile env metaFile = Inr data \<and> UnmarshalMeta env data = Inr m \<and> startTS l \<le> GlobalResolvedTS m"
  show "RestoreLogData env l
          = RestoreLogData_replay env (l\<lparr>meta := m, endTS := min (endTS l) (GlobalResolvedTS m)\<rparr>)"
  proof (cases "endTS l > GlobalResolvedTS m")
    case True
    then have "min (endTS l) (GlobalResolvedTS m) = GlobalResolvedTS m" by simp
    moreover from a have "\<not> GlobalResolvedTS m < startTS l" by (simp add: not_less)
    ultimately show ?thesis using a True by (simp add: RestoreLogData_def Let_def)
  next
    case False
    then have "min (endTS l) (GlobalResolvedTS m) = endTS l" by simp
    moreover from a have "\<not> GlobalResolvedTS m < startTS l" by (simp add: not_less)
    ultimately show ?thesis using a False by (simp add: RestoreLogData_def Let_def)
  qed
next
  assume "RestoreLogData_replay env l = Some (r, l')"
  from RestoreLogData_replay_frame [OF this] show "startTS l' = startTS l" "endTS l' = endTS l"
    by (simp_all add: sameWindow_def)
qed


theorem window_checked_against_resolved_ts_witness:
  "ReadFile exampleEnv metaFile = Inr metaFile
   \<and> UnmarshalMeta exampleEnv metaFile = Inr (meta exampleClient)
   \<and> GlobalResolvedTS (meta exampleClient) < startTS (exampleClient\<lparr>startTS := 400\<rparr>)
   \<and> RestoreLogData exampleEnv (exampleClient\<lparr>startTS := 400\<rparr>)
       = Some (Some ErrRestoreRTsConstrain, exampleClient\<lparr>startTS := 400\<rparr>)
   \<and> startTS (exampleClient\<lparr>endTS := 500\<rparr>) \<le> GlobalResolvedTS (meta exampleClient)
   \<and> RestoreLogData exampleEnv (exampleClient\<lparr>endTS := 500\<rparr>)
       = Some (None, exampleClient\<lparr>endTS := 300\<rparr>)
   \<and> RestoreLogData_replay exampleEnv exampleClient = Some (None, exampleClient)"
  using window_checked_against_resolved_ts
      [where env = exampleEnv and data = metaFile and m = "meta exampleClient"
        and l = "exampleClient\<lparr>startTS := 400\<rparr>"]
    window_checked_against_resolved_ts
      [where env = exampleEnv and data = metaFile and m = "meta exampleClient"
        and l = "exampleClient\<lparr>endTS := 500\<rparr>"]
    window_checked_against_resolved_ts
      [where env = exampleEnv and l = exampleClient and r = None and l' = exampleClient]
  by (simp add: RestoreLogData_def RestoreLogData_replay_def collectDDLFiles_def doDBDDLJob_def
      example_defs)

text \<open>C5 (amended). The collected DDL files are the listed paths whose base name is
  \<open>ddl.n\<close> with the decoded commitTS \<open>maxUint64 - n\<close> not above \<open>endTS\<close>, in descending byte
  order of the paths. For two collected paths in the same directory whose numbers have the
  same length, that is the order of the decoded commitTS, oldest first. \<open>doDBDDLJob\<close> goes
  through the collected files in that order and through the events of a file in the order
  of its stream, and executes the statement of every database-level DDL event whose
  commitTS lies inside \<open>[startTS, endTS]\<close>; where it returns \<open>nil\<close> these are all the
  statements it has executed, so an event with commitTS below \<open>startTS\<close> or above \<open>endTS\<close>
  is not executed. Where a worker has been started, all these statements have been
  executed before. Where a statement fails, \<open>RestoreLogData\<close> returns the error and starts
  no worker.\<close>

theorem db_ddl_in_window_executed_first:
  "(collectDDLFiles env l = Inr ddls \<longrightarrow>
      (\<exists>paths. WalkDir env ddlEventsDir = Inr paths
         \<and> mset ddls = mset (filter (\<lambda>p. NeedRestoreDDL l (Base p) = Inr True) paths))
      \<and> sorted (rev ddls))
   \<and> (NeedRestoreDDL l f = Inr True \<longleftrightarrow>
        (\<exists>s n. Split f (CHR ''.'') = [''ddl'', s] \<and> ParseUint s = Inr n \<and> maxUint64 - n \<le> endTS l))
   \<and> (collectDDLFiles env l = Inr ddls \<and> i < j \<and> j < length ddls
        \<and> ddls ! i = d @ ''ddl.'' @ sa \<and> ddls ! j = d @ ''ddl.'' @ sb \<and> length sa = length sb
        \<and> ParseUint sa = Inr na \<and> ParseUint sb = Inr nb
      \<longrightarrow> maxUint64 - na \<le> maxUint64 - nb)
   \<and> (path \<in> set ddls \<and> Inr item \<in> set (eventsOf env path) \<and> Data item = DDLData ddl
      \<and> isDBRelatedDDL ddl \<and> tsInRange l (TS item)
      \<longrightarrow> Query ddl \<in> set (concat (map (\<lambda>path. inWindowDBQueries l (eventsOf env path)) ddls)))
   \<and> (q \<in> set (concat (map (\<lambda>path. inWindowDBQueries l (eventsOf env path)) ddls))
      \<longrightarrow> (\<exists>path item ddl. path \<in> set ddls \<and> Inr item \<in> set (eventsOf env path)
             \<and> Data item = DDLData ddl \<and> isDBRelatedDDL ddl \<and> tsInRange l (TS item) \<and> q = Query ddl))
   \<and> inWindowDBQueries l (xs @ ys) = inWindowDBQueries l xs @ inWindowDBQueries l ys
   \<and> (doDBDDLJob env ddls l = (None, lj) \<longrightarrow>
        calls lj = calls l @ map CallExecute (concat (map (\<lambda>path. inWindowDBQueries l (eventsOf env path)) ddls)))
   \<and> (collectDDLFiles env l = Inr ddls \<and> RestoreLogData_replay env l = Some (r, l')
        \<and> CallStartWorker tid \<in> set (drop (length (calls l)) (calls l')) \<longrightarrow>
        (\<exists>cs. calls l' = calls l
            @ map CallExecute (concat (map (\<lambda>path. inWindowDBQueries l (eventsOf env path)) ddls)) @ cs))
   \<and> (collectDDLFiles env l = Inr ddls \<and> doDBDDLJob env ddls l = (Some err, lj) \<longrightarrow>
        RestoreLogData_replay env l = Some (Some err, lj))"
proof (intro conjI impI)
  assume "collectDDLFiles env l = Inr ddls"
  from collectDDLFiles_Inr [OF this] obtain paths
    where w: "WalkDir env ddlEventsDir = Inr paths"
      and d: "ddls = rev (sort (filter (\<lambda>p. NeedRestoreDDL l (Base p) = Inr True) paths))"
    by blast
  from d have "mset ddls = mset (filter (\<lambda>p. NeedRestoreDDL l (Base p) = Inr True) paths)"
    by simp
  with w show "\<exists>paths. WalkDir env ddlEventsDir = Inr paths
         \<and> mset ddls = mset (filter (\<lambda>p. NeedRestoreDDL l (Base p) = Inr True) paths)"
    by blast
  from d show "sorted (rev ddls)" by simp
next
  show "NeedRestoreDDL l f = Inr True \<longleftrightarrow>
        (\<exists>s n. Split f (CHR ''.'') = [''ddl'', s] \<and> ParseUint s = Inr n \<and> maxUint64 - n \<le> endTS l)"
    by (rule NeedRestoreDDL_True_iff)
next
  assume a: "collectDDLFiles env l = Inr ddls \<and> i < j \<and> j < length ddls
        \<and> ddls ! i = d @ ''ddl.'' @ sa \<and> ddls ! j = d @ ''ddl.'' @ sb \<and> length sa = length sb
        \<and> ParseUint sa = Inr na \<and> ParseUint sb = Inr nb"
  from collectDDLFiles_Inr [OF a [THEN conjunct1]] have "sorted (rev ddls)" by auto
  moreover from a have "i \<le> j" "j < length ddls" by simp_all
  ultimately have "ddls ! j \<le> ddls ! i" by (rule sorted_rev_nth_mono)
  with a have "d @ ''ddl.'' @ sb \<le> d @ ''ddl.'' @ sa" by simp
  then have "sb \<le> sa" by (simp only: append_le_cancel)
  with a have "ParseUint sa = Inr na" "ParseUint sb = Inr nb" "length sa = length sb" "sb \<le> sa"
    by simp_all
  then show "maxUint64 - na \<le> maxUint64 - nb" by (rule decoded_mono)
next
  assume "path \<in> set ddls \<and> Inr item \<in> set (eventsOf env path) \<and> Data item = DDLData ddl
      \<and> isDBRelatedDDL ddl \<and> tsInRange l (TS item)"
  then show "Query ddl \<in> set (concat (map (\<lambda>path. inWindowDBQueries l (eventsOf env path)) ddls))"
    using inWindowDBQueries_mem [of item "eventsOf env path" ddl l] by auto
next
  assume "q \<in> set (concat (map (\<lambda>path. inWindowDBQueries l (eventsOf env path)) ddls))"
  then obtain path where p: "path \<in> set ddls" and "q \<in> set (inWindowDBQueries l (eventsOf env path))"
    by auto
  from inWindowDBQueries_memD [OF this(2)] p
  show "\<exists>path item ddl. path \<in> set ddls \<and> Inr item \<in> set (eventsOf env path)
             \<and> Data item = DDLData ddl \<and> isDBRelatedDDL ddl \<and> tsInRange l (TS item) \<and> q = Query ddl"
    by blast
next
  show "inWindowDBQueries l (xs @ ys) = inWindowDBQueries l xs @ inWindowDBQueries l ys"
    by (rule inWindowDBQueries_append)
next
  assume "doDBDDLJob env ddls l = (None, lj)"
  then show "calls lj = calls l @ map CallExecute (concat (map (\<lambda>path. inWindowDBQueries l (eventsOf env path)) ddls))"
    by (simp add: doDBDDLJob_files_eq doDBDDLJob_files_calls)
next
  assume a: "collectDDLFiles env l = Inr ddls \<and> doDBDDLJob env ddls l = (Some err, lj)"
  then show "RestoreLogData_replay env l = Some (Some err, lj)"
    by (simp add: RestoreLogData_replay_def)
next
  let ?qs = "concat (map (\<lambda>path. inWindowDBQueries l (eventsOf env path)) ddls)"
  assume a: "collectDDLFiles env l = Inr ddls \<and> RestoreLogData_replay env l = Some (r, l')
        \<and> CallStartWorker tid \<in> set (drop (length (calls l)) (calls l'))"
  then have a1: "collectDDLFiles env l = Inr ddls" and a2: "RestoreLogData_replay env l = Some (r, l')"
    and a3: "CallStartWorker tid \<in> set (drop (length (calls l)) (calls l'))" by simp_all
  obtain rj lj where dj: "doDBDDLJob_files env ddls l = (rj, lj)"
    by (cases "doDBDDLJob_files env ddls l") auto
  from doDBDDLJob_files_frame [OF dj] obtain qs where qs: "calls lj = calls l @ map CallExecute qs"
    by blast
  have nostart: "l' \<noteq> lj"
  proof
    assume "l' = lj"
    with a3 qs show False by auto
  qed
  show "\<exists>cs. calls l' = calls l @ map CallExecute ?qs @ cs"
  proof (cases rj)
    case (Some e)
    from a1 Some dj a2 nostart show ?thesis
      by (simp add: RestoreLogData_replay_def doDBDDLJob_files_eq)
  next
    case None
    note rj = this
    from doDBDDLJob_files_calls [OF dj [unfolded rj]]
    have c1: "calls lj = calls l @ map CallExecute ?qs" .
    show ?thesis
    proof (cases "tablePullers env ddls lj")
      case (Inl e)
      from a1 rj dj Inl a2 nostart show ?thesis
        by (simp add: RestoreLogData_replay_def doDBDDLJob_files_eq)
    next
      case (Inr tables)
      from a1 rj dj Inr a2 obtain ps b
        where "restoreTables env ps (lj\<lparr>tableBuffers := b\<rparr>) = Some (r, l')"
        by (auto simp: RestoreLogData_replay_def doDBDDLJob_files_eq)
      from restoreTables_frame [OF this] obtain cs where "calls l' = calls lj @ cs" by auto
      with c1 show ?thesis by simp
    qed
  qed
qed


theorem db_ddl_in_window_executed_first_witness:
  "collectDDLFiles exampleEnvDDLFiles exampleClient = Inr [exampleDDLPath, exampleDDLPath150]
   \<and> WalkDir exampleEnvDDLFiles ddlEventsDir
       = Inr [exampleDDLPath150, ''ddls/readme'', exampleDDLPath250, exampleDDLPath]
   \<and> mset [exampleDDLPath, exampleDDLPath150]
       = mset (filter (\<lambda>p. NeedRestoreDDL exampleClient (Base p) = Inr True)
           [exampleDDLPath150, ''ddls/readme'', exampleDDLPath250, exampleDDLPath])
   \<and> sorted (rev [exampleDDLPath, exampleDDLPath150])
   \<and> NeedRestoreDDL exampleClient ''ddl.18446744073709551525'' = Inr True
   \<and> \<not> (\<exists>s n. Split ''ddl.18446744073709551365'' (CHR ''.'') = [''ddl'', s] \<and> ParseUint s = Inr n
            \<and> maxUint64 - n \<le> endTS exampleClient)
   \<and> [exampleDDLPath, exampleDDLPath150] ! 0 = ''ddls/'' @ ''ddl.'' @ ''18446744073709551525''
   \<and> [exampleDDLPath, exampleDDLPath150] ! Suc 0 = ''ddls/'' @ ''ddl.'' @ ''18446744073709551465''
   \<and> ParseUint ''18446744073709551525'' = Inr 18446744073709551525
   \<and> ParseUint ''18446744073709551465'' = Inr 18446744073709551465
   \<and> maxUint64 - 18446744073709551525 \<le> maxUint64 - (18446744073709551465 :: uint64)
   \<and> Inr exampleDropSchema \<in> set (eventsOf exampleEnvDDLFiles exampleDDLPath150)
   \<and> Data exampleDropSchema = DDLData \<lparr>Query = ''drop database test'', Type = ActionDropSchema\<rparr>
   \<and> isDBRelatedDDL \<lparr>Query = ''drop database test'', Type = ActionDropSchema\<rparr>
   \<and> tsInRange exampleClient (TS exampleDropSchema)
   \<and> concat (map (\<lambda>path. inWindowDBQueries exampleClient (eventsOf exampleEnvDDLFiles path))
        [exampleDDLPath, exampleDDLPath150])
       = [''alter database test charset utf8mb4'', ''drop database test'']
   \<and> doDBDDLJob exampleEnvDDLFiles [exampleDDLPath, exampleDDLPath150] exampleClient
       = (None, exampleClient\<lparr>dropTSMap := [''test'' \<mapsto> 150],
            calls := [CallExecute ''alter database test charset utf8mb4'',
                      CallExecute ''drop database test'']\<rparr>)
   \<and> RestoreLogData_replay exampleEnvDDLFiles exampleClient
       = Some (None, exampleClient\<lparr>dropTSMap := [''test'' \<mapsto> 150],
            calls := [CallExecute ''alter database test charset utf8mb4'',
                      CallExecute ''drop database test'', CallStartWorker 1,
                      CallAppend 1 (exampleRow 150),
                      CallIngest [\<lparr>Key = k1, Val = v1\<rparr>] \<lparr>Start = k1, End = k1 @ [0]\<rparr>]\<rparr>)
   \<and> doDBDDLJob (exampleEnvDDLFiles\<lparr>Execute := (\<lambda>cs stmt. Some (ErrCollaborator 3))\<rparr>)
         [exampleDDLPath, exampleDDLPath150] exampleClient
       = (Some (ErrCollaborator 3),
          exampleClient\<lparr>calls := [CallExecute ''alter database test charset utf8mb4'']\<rparr>)
   \<and> RestoreLogData_replay (exampleEnvDDLFiles\<lparr>Execute := (\<lambda>cs stmt. Some (ErrCollaborator 3))\<rparr>)
         exampleClient
       = Some (Some (ErrCollaborator 3),
          exampleClient\<lparr>calls := [CallExecute ''alter database test charset utf8mb4'']\<rparr>)"
  using db_ddl_in_window_executed_first
      [where env = exampleEnvDDLFiles and l = exampleClient
        and ddls = "[exampleDDLPath, exampleDDLPath150]"
        and f = "''ddl.18446744073709551525''"
        and i = 0 and j = "Suc 0" and d = "''ddls/''"
        and sa = "''18446744073709551525''" and sb = "''18446744073709551465''"
        and na = 18446744073709551525 and nb = 18446744073709551465
        and path = exampleDDLPath150 and item = exampleDropSchema
        and ddl = "\<lparr>Query = ''drop database test'', Type = ActionDropSchema\<rparr>"
        and q = "''alter database test charset utf8mb4''"
        and lj = "exampleClient\<lparr>dropTSMap := [''test'' \<mapsto> 150],
            calls := [CallExecute ''alter database test charset utf8mb4'',
                      CallExecute ''drop database test'']\<rparr>"
        and tid = 1 and r = None
        and l' = "exampleClient\<lparr>dropTSMap := [''test'' \<mapsto> 150],
            calls := [CallExecute ''alter database test charset utf8mb4'',
                      CallExecute ''drop database test'', CallStartWorker 1,
                      CallAppend 1 (exampleRow 150),
                      CallIngest [\<lparr>Key = k1, Val = v1\<rparr>] \<lparr>Start = k1, End = k1 @ [0]\<rparr>]\<rparr>"]
    db_ddl_in_window_executed_first
      [where l = exampleClient and f = "''ddl.18446744073709551365''",
        THEN conjunct2, THEN conjunct1]
    db_ddl_in_window_executed_first
      [where ddls = "[exampleDDLPath, exampleDDLPath150]" and l = exampleClient
        and env = "exampleEnvDDLFiles\<lparr>Execute := (\<lambda>cs stmt. Some (ErrCollaborator 3))\<rparr>"
        and err = "ErrCollaborator 3"
        and lj = "exampleClient\<lparr>calls := [CallExecute ''alter database test charset utf8mb4'']\<rparr>",
        THEN conjunct2, THEN conjunct2, THEN conjunct2, THEN conjunct2, THEN conjunct2,
        THEN conjunct2, THEN conjunct2, THEN conjunct2]
  by (simp add: example_files example_files_job example_files_replay example_files_events example_need
        example_parse example_files_fail example_files_facts del: inWindowDBQueries.simps)

text \<open>The claim as stated fails in three runs of \<open>RestoreLogData\<close>. An event before the window
  is not executed: the file whose name decodes to commitTS 90 is collected, it holds the
  \<open>CreateSchema\<close> at 90, and the restore runs to its end without executing the statement of
  that event. The order of the files is the byte order of the names, not the order of the
  decoded commitTS: with the window open to \<open>maxUint64\<close>, \<open>ddl.9\<close> is processed before
  \<open>ddl.10\<close>, so the \<open>DropSchema\<close> at \<open>maxUint64 - 9\<close> is executed before the \<open>CreateSchema\<close> at
  \<open>maxUint64 - 10\<close>. Within a file the order is that of the stream: a file that holds the
  \<open>DropSchema\<close> at 150 before the change of the character set at 120 has them executed in
  that order.\<close>

theorem db_ddl_window_and_order_counterexample:
  "collectDDLFiles exampleEnvDDLFiles exampleClient = Inr [exampleDDLPath, exampleDDLPath150]
   \<and> eventsOf exampleEnvDDLFiles exampleDDLPath = [Inr exampleCreateSchema, Inr exampleAlterSchema]
   \<and> Data exampleCreateSchema = DDLData \<lparr>Query = ''create database test'', Type = ActionCreateSchema\<rparr>
   \<and> isDBRelatedDDL \<lparr>Query = ''create database test'', Type = ActionCreateSchema\<rparr>
   \<and> TS exampleCreateSchema = 90 \<and> startTS exampleClient = 100
   \<and> RestoreLogData exampleEnvDDLFiles exampleClient
       = Some (None, exampleClient\<lparr>dropTSMap := [''test'' \<mapsto> 150],
            calls := [CallExecute ''alter database test charset utf8mb4'',
                      CallExecute ''drop database test'', CallStartWorker 1,
                      CallAppend 1 (exampleRow 150),
                      CallIngest [\<lparr>Key = k1, Val = v1\<rparr>] \<lparr>Start = k1, End = k1 @ [0]\<rparr>]\<rparr>)
   \<and> CallExecute ''create database test''
       \<notin> set [CallExecute ''alter database test charset utf8mb4'',
                CallExecute ''drop database test'', CallStartWorker 1,
                CallAppend 1 (exampleRow 150),
                CallIngest [\<lparr>Key = k1, Val = v1\<rparr>] \<lparr>Start = k1, End = k1 @ [0]\<rparr>]
   \<and> collectDDLFiles exampleEnvDDLOrder exampleClientOpen = Inr [''ddls/ddl.9'', ''ddls/ddl.10'']
   \<and> eventsOf exampleEnvDDLOrder ''ddls/ddl.9'' = [Inr (exampleDropSchema\<lparr>TS := maxUint64 - 9\<rparr>)]
   \<and> eventsOf exampleEnvDDLOrder ''ddls/ddl.10'' = [Inr (exampleCreateSchema\<lparr>TS := maxUint64 - 10\<rparr>)]
   \<and> maxUint64 - 10 < (maxUint64 - 9 :: uint64)
   \<and> RestoreLogData exampleEnvDDLOrder (exampleClient\<lparr>endTS := maxUint64\<rparr>)
       = Some (None, exampleClientOpen\<lparr>dropTSMap := [''test'' \<mapsto> maxUint64 - 9],
            calls := [CallExecute ''drop database test'', CallExecute ''create database test'']\<rparr>)
   \<and> collectDDLFiles exampleEnvDDLStream exampleClient = Inr [exampleDDLPath]
   \<and> eventsOf exampleEnvDDLStream exampleDDLPath = [Inr exampleDropSchema, Inr exampleAlterSchema]
   \<and> TS exampleDropSchema = 150 \<and> TS exampleAlterSchema = 120
   \<and> RestoreLogData exampleEnvDDLStream exampleClient
       = Some (None, exampleClient\<lparr>dropTSMap := [''test'' \<mapsto> 150],
            calls := [CallExecute ''drop database test'',
                      CallExecute ''alter database test charset utf8mb4'']\<rparr>)"
  by (simp add: example_files example_files_replay example_files_events example_order_files
        example_order_replay example_stream example_RestoreLogData)
    (simp add: eventsOf_def exampleEnvDDLOrder_def exampleCreateSchema_def exampleAlterSchema_def
      isDBRelatedDDL_def maxUint64_def replay_defs example_defs)





section \<open>Generated columns in the row encoder\<close>

lemma genIndices_Cons:
  "genIndices (col # cols) =
     (if GeneratedExpr col \<noteq> None then [0] else []) @ map Suc (genIndices cols)"
proof -
  have "[0..<length (col # cols)] = 0 # map Suc [0..<length cols]"
    by (simp add: upt_conv_Cons map_Suc_upt del: upt_Suc)
  then show ?thesis
    by (simp add: genIndices_def filter_map comp_def del: upt_Suc)
qed

lemma collectGeneratedColumns_loop_index:
  "collectGeneratedColumns_loop env cols i gcs = Inr out \<Longrightarrow>
     map index out = map index gcs @ map (\<lambda>k. i + k) (genIndices cols)"
proof (induction cols arbitrary: i gcs)
  case Nil
  then show ?case by (simp add: genIndices_def)
next
  case (Cons col cols)
  show ?case
  proof (cases "GeneratedExpr col")
    case None
    with Cons.prems have "collectGeneratedColumns_loop env cols (i + 1) gcs = Inr out" by simp
    from Cons.IH [OF this] None show ?thesis by (simp add: genIndices_Cons comp_def)
  next
    case (Some ast)
    with Cons.prems obtain e where
      "collectGeneratedColumns_loop env cols (i + 1) (gcs @ [\<lparr>index = i, expr = e\<rparr>]) = Inr out"
      by (auto split: sum.splits)
    from Cons.IH [OF this] Some show ?thesis by (simp add: genIndices_Cons comp_def)
  qed
qed

lemma insertStable_insort_key:
  "insertStable (\<lambda>a b. f a < f b) x ys = insort_key f x ys" for f :: "'a \<Rightarrow> 'b::linorder"
  by (induction ys) (auto simp: not_less)

lemma SortFunc_sort_key:
  "SortFunc (\<lambda>a b. f a < f b) xs = sort_key f xs" for f :: "'a \<Rightarrow> 'b::linorder"
  by (induction xs) (simp_all add: SortFunc_def insertStable_insort_key)

lemma collectGeneratedColumns_props:
  assumes "collectGeneratedColumns env cols = Inr gcs"
  shows "sorted (map (\<lambda>g. Offset (cols ! index g)) gcs)"
    and "mset (map index gcs) = mset (genIndices cols)"
proof -
  have "sorted (map (\<lambda>g. Offset (cols ! index g)) gcs) \<and> mset (map index gcs) = mset (genIndices cols)"
  proof (cases "list_ex (\<lambda>col. GeneratedExpr col \<noteq> None) cols")
    case False
    then have "genIndices cols = []"
      by (auto simp: genIndices_def list_ex_iff filter_empty_conv)
    with assms False show ?thesis by (simp add: collectGeneratedColumns_def)
  next
    case True
    with assms obtain out where lp: "collectGeneratedColumns_loop env cols 0 [] = Inr out"
      and g: "gcs = SortFunc (\<lambda>i j. Offset (cols ! index i) < Offset (cols ! index j)) out"
      by (auto simp: collectGeneratedColumns_def split: sum.splits)
    from g have g': "gcs = sort_key (\<lambda>g. Offset (cols ! index g)) out"
      by (simp add: SortFunc_sort_key)
    from collectGeneratedColumns_loop_index [OF lp] have "map index out = genIndices cols" by simp
    then have "mset (map index gcs) = mset (genIndices cols)"
      unfolding g' by (metis mset_map mset_sort)
    moreover have "sorted (map (\<lambda>g. Offset (cols ! index g)) gcs)"
      unfolding g' by (rule sorted_sort_key)
    ultimately show ?thesis by simp
  qed
  then show "sorted (map (\<lambda>g. Offset (cols ! index g)) gcs)"
    and "mset (map index gcs) = mset (genIndices cols)" by simp_all
qed

lemma evaluateGeneratedColumns_log:
  "evaluateGeneratedColumns env recd cols gcs evals = (r, recd', evals') \<Longrightarrow>
     \<exists>new. evals' = evals @ new
       \<and> (\<exists>n \<le> length gcs. map fst new = take n (map index gcs) \<and> (r = None \<longrightarrow> n = length gcs))
       \<and> (\<forall>(i, rr) \<in> set new. length rr = length recd
             \<and> (\<forall>k. k \<notin> index ` set gcs \<longrightarrow> rr ! k = recd ! k))"
proof (induction gcs arbitrary: recd evals)
  case Nil
  then show ?case by simp
next
  case (Cons gc gcs)
  let ?e1 = "evals @ [(index gc, recd)]"
  have stop: ?case if "evals' = ?e1" "r \<noteq> None"
  proof (intro exI [of _ "[(index gc, recd)]"] conjI)
    show "evals' = evals @ [(index gc, recd)]" using that by simp
    show "\<exists>n \<le> length (gc # gcs). map fst [(index gc, recd)] = take n (map index (gc # gcs))
            \<and> (r = None \<longrightarrow> n = length (gc # gcs))"
      by (rule exI [of _ 1]) (use that in auto)
    show "\<forall>(i, rr) \<in> set [(index gc, recd)]. length rr = length recd
             \<and> (\<forall>k. k \<notin> index ` set (gc # gcs) \<longrightarrow> rr ! k = recd ! k)"
      by simp
  qed
  show ?case
  proof (cases "Eval env (expr gc) recd")
    case (Inl err)
    with Cons.prems have "evals' = ?e1" "r \<noteq> None" by auto
    then show ?thesis by (rule stop)
  next
    case (Inr evaluated)
    note ev = this
    show ?thesis
    proof (cases "CastValue env evaluated (cols ! index gc)")
      case (Inl err)
      with Cons.prems ev have "evals' = ?e1" "r \<noteq> None" by auto
      then show ?thesis by (rule stop)
    next
      case (Inr val)
      with Cons.prems ev
      have "evaluateGeneratedColumns env (recd[index gc := val]) cols gcs ?e1 = (r, recd', evals')"
        by simp
      from Cons.IH [OF this] obtain new n where new: "evals' = ?e1 @ new"
        and n: "n \<le> length gcs" "map fst new = take n (map index gcs)" "r = None \<longrightarrow> n = length gcs"
        and agree: "\<forall>(i, rr) \<in> set new. length rr = length (recd[index gc := val])
             \<and> (\<forall>k. k \<notin> index ` set gcs \<longrightarrow> rr ! k = recd[index gc := val] ! k)"
        by blast
      show ?thesis
      proof (intro exI [of _ "(index gc, recd) # new"] conjI)
        show "evals' = evals @ (index gc, recd) # new" using new by simp
        show "\<exists>m \<le> length (gc # gcs). map fst ((index gc, recd) # new) = take m (map index (gc # gcs))
                \<and> (r = None \<longrightarrow> m = length (gc # gcs))"
          by (rule exI [of _ "Suc n"]) (use n in simp)
        show "\<forall>(i, rr) \<in> set ((index gc, recd) # new). length rr = length recd
             \<and> (\<forall>k. k \<notin> index ` set (gc # gcs) \<longrightarrow> rr ! k = recd ! k)"
          using agree by (auto simp: nth_list_update)
      qed
    qed
  qed
qed

lemma Encode_cols_values:
  "Encode_cols env kvcodec row rowID perm is recd = Inr recd' \<Longrightarrow>
     length recd' = length recd + length is
     \<and> (\<forall>n < length recd. recd' ! n = recd ! n)
     \<and> (\<forall>n < length is.
           getActualDatum env kvcodec rowID (is ! n) (theDatum row perm (is ! n))
             = Inr (recd' ! (length recd + n)))"
proof (induction "is" arbitrary: recd)
  case Nil
  then show ?case by simp
next
  case (Cons i "is")
  from Cons.prems obtain val
    where v: "getActualDatum env kvcodec rowID i (theDatum row perm i) = Inr val"
      and rest: "Encode_cols env kvcodec row rowID perm is (recd @ [val]) = Inr recd'"
    by (auto split: if_splits sum.splits option.splits)
  from Cons.IH [OF rest]
  have len: "length recd' = length recd + 1 + length is"
    and old: "\<forall>n < length recd + 1. recd' ! n = (recd @ [val]) ! n"
    and new: "\<forall>n < length is. getActualDatum env kvcodec rowID (is ! n) (theDatum row perm (is ! n))
             = Inr (recd' ! (length recd + 1 + n))"
    by simp_all
  show ?case
  proof (intro conjI allI impI)
    show "length recd' = length recd + length (i # is)" using len by simp
  next
    fix n assume "n < length recd"
    with old show "recd' ! n = recd ! n" by (simp add: nth_append)
  next
    fix n assume n: "n < length (i # is)"
    show "getActualDatum env kvcodec rowID ((i # is) ! n) (theDatum row perm ((i # is) ! n))
            = Inr (recd' ! (length recd + n))"
    proof (cases n)
      case 0
      from old have "recd' ! length recd = val" by (simp add: nth_append)
      with v 0 show ?thesis by simp
    next
      case (Suc m)
      with n new show ?thesis by simp
    qed
  qed
qed

lemma Encode_rowID_keeps:
  "Encode_rowID env kvcodec row rowID perm recd = Inr recd1 \<Longrightarrow>
     length recd \<le> length recd1 \<and> (\<forall>n < length recd. recd1 ! n = recd ! n)"
  by (auto simp: Encode_rowID_def Let_def nth_append split: if_splits sum.splits option.splits)


lemma example_NewTableKVEncoder: "NewTableKVEncoder exampleKvEnv exampleTable
   = Inr (exampleTable\<lparr>genCols := [\<lparr>index = 0, expr = 2\<rparr>, \<lparr>index = Suc 0, expr = Suc 0\<rparr>]\<rparr>)"
  by (simp add: NewTableKVEncoder_def collectGeneratedColumns_def SortFunc_def exampleTable_def
      exampleCols_def exampleKvEnv_def)

lemma example_Encode: "Encode exampleKvEnv (exampleTable\<lparr>genCols := [\<lparr>index = 0, expr = 2\<rparr>, \<lparr>index = Suc 0, expr = Suc 0\<rparr>]\<rparr>)
     [IntDatum 5] 1 [- 1, - 1, 0, - 1]
   = (Inr [], [(0, [OtherDatum 0, OtherDatum 0, IntDatum 5, IntDatum 1]),
               (Suc 0, [IntDatum 6, OtherDatum 0, IntDatum 5, IntDatum 1])])"
  by (simp add: Encode_def Encode_rowID_def getActualDatum_def theDatum_def isAutoIncCol_def
      isAutoRandomCol_def exampleTable_def exampleCols_def exampleKvEnv_def upt_rec Let_def)

text \<open>C9. For an encoder made by \<open>NewTableKVEncoder\<close>, in every run of \<open>Encode\<close>: the calls
  of \<open>Eval\<close> are made in ascending order of the column offset; each is for a generated
  column and is given a record that holds, at every column without a generated expression,
  the value \<open>getActualDatum\<close> made for that column (so all captured columns are set before
  the first generated column is evaluated); and where \<open>Encode\<close> returns pairs, every
  generated column has been evaluated once.\<close>

theorem generated_columns_evaluated_last_in_offset_order:
  "NewTableKVEncoder env tbl = Inr kvcodec \<and> Encode env kvcodec row rowID perm = (res, evals) \<longrightarrow>
     sorted (map (\<lambda>(i, r). Offset (Cols kvcodec ! i)) evals)
   \<and> (\<forall>(i, r) \<in> set evals.
         i < length (Cols kvcodec) \<and> GeneratedExpr (Cols kvcodec ! i) \<noteq> None
         \<and> length (Cols kvcodec) \<le> length r
         \<and> (\<forall>k < length (Cols kvcodec). GeneratedExpr (Cols kvcodec ! k) = None \<longrightarrow>
               getActualDatum env kvcodec rowID k (theDatum row perm k) = Inr (r ! k)))
   \<and> ((\<exists>kvPairs. res = Inr kvPairs) \<longrightarrow> mset (map fst evals) = mset (genIndices (Cols kvcodec)))"
proof (intro impI)
  assume a: "NewTableKVEncoder env tbl = Inr kvcodec \<and> Encode env kvcodec row rowID perm = (res, evals)"
  let ?cols = "Cols kvcodec"
  let ?gcs = "genCols kvcodec"
  let ?goal = "sorted (map (\<lambda>(i, r). Offset (?cols ! i)) evals)
   \<and> (\<forall>(i, r) \<in> set evals.
         i < length ?cols \<and> GeneratedExpr (?cols ! i) \<noteq> None
         \<and> length ?cols \<le> length r
         \<and> (\<forall>k < length ?cols. GeneratedExpr (?cols ! k) = None \<longrightarrow>
               getActualDatum env kvcodec rowID k (theDatum row perm k) = Inr (r ! k)))
   \<and> ((\<exists>kvPairs. res = Inr kvPairs) \<longrightarrow> mset (map fst evals) = mset (genIndices ?cols))"
  from a have cg: "collectGeneratedColumns env ?cols = Inr ?gcs"
    by (auto simp: NewTableKVEncoder_def split: sum.splits)
  note srt = collectGeneratedColumns_props(1) [OF cg]
  note ms = collectGeneratedColumns_props(2) [OF cg]
  from ms have st: "index ` set ?gcs = set (genIndices ?cols)"
    by (metis set_map set_mset_mset)
  from a have enc: "Encode env kvcodec row rowID perm = (res, evals)" by simp
  show ?goal
  proof (cases "Encode_cols env kvcodec row rowID perm [0..<length ?cols] []")
    case (Inl f)
    with enc show ?thesis by (auto simp: Encode_def)
  next
    case (Inr recd)
    note cols = Encode_cols_values [OF Inr]
    show ?thesis
    proof (cases "Encode_rowID env kvcodec row rowID perm recd")
      case (Inl f)
      with enc Inr show ?thesis by (auto simp: Encode_def)
    next
      case (Inr recd1)
      note rid = Encode_rowID_keeps [OF Inr]
      have base: "getActualDatum env kvcodec rowID k (theDatum row perm k) = Inr (recd1 ! k)"
        and len: "length ?cols \<le> length recd1" if "k < length ?cols" for k
        using cols rid that by auto
      show ?thesis
      proof (cases "?gcs = []")
        case True
        with ms have "genIndices ?cols = []" by simp
        with enc \<open>Encode_cols env kvcodec row rowID perm [0..<length ?cols] [] = Inr recd\<close> Inr True
        show ?thesis by (auto simp: Encode_def split: sum.splits)
      next
        case False
        obtain r recd2 evals' where ev: "evaluateGeneratedColumns env recd1 ?cols ?gcs [] = (r, recd2, evals')"
          by (cases "evaluateGeneratedColumns env recd1 ?cols ?gcs []") auto
        with enc \<open>Encode_cols env kvcodec row rowID perm [0..<length ?cols] [] = Inr recd\<close> Inr False
        have e: "evals = evals'" and ok: "(\<exists>kvPairs. res = Inr kvPairs) \<longrightarrow> r = None"
          by (auto simp: Encode_def split: sum.splits option.splits)
        from evaluateGeneratedColumns_log [OF ev] e obtain n
          where n: "n \<le> length ?gcs" "map fst evals = take n (map index ?gcs)"
            "r = None \<longrightarrow> n = length ?gcs"
          and agree: "\<forall>(i, rr) \<in> set evals. length rr = length recd1
             \<and> (\<forall>k. k \<notin> index ` set ?gcs \<longrightarrow> rr ! k = recd1 ! k)"
          by auto
        have "map (\<lambda>(i, r). Offset (?cols ! i)) evals = map (\<lambda>i. Offset (?cols ! i)) (map fst evals)"
          by (simp add: case_prod_unfold)
        also have "\<dots> = take n (map (\<lambda>g. Offset (?cols ! index g)) ?gcs)"
          by (simp add: n(2) take_map)
        finally have s1: "sorted (map (\<lambda>(i, r). Offset (?cols ! i)) evals)"
          using srt by (simp add: sorted_wrt_take)
        have s2: "i < length ?cols \<and> GeneratedExpr (?cols ! i) \<noteq> None
             \<and> length ?cols \<le> length rr
             \<and> (\<forall>k < length ?cols. GeneratedExpr (?cols ! k) = None \<longrightarrow>
                   getActualDatum env kvcodec rowID k (theDatum row perm k) = Inr (rr ! k))"
          if mem: "(i, rr) \<in> set evals" for i rr
        proof -
          from mem have "i \<in> set (map fst evals)" by force
          with n(2) have "i \<in> index ` set ?gcs" by (auto dest: in_set_takeD)
          with st have gi: "i < length ?cols \<and> GeneratedExpr (?cols ! i) \<noteq> None"
            by (auto simp: genIndices_def)
          from agree mem have lr: "length rr = length recd1"
            and ag: "\<And>k. k \<notin> index ` set ?gcs \<Longrightarrow> rr ! k = recd1 ! k" by auto
          have "getActualDatum env kvcodec rowID k (theDatum row perm k) = Inr (rr ! k)"
            if "k < length ?cols" "GeneratedExpr (?cols ! k) = None" for k
          proof -
            from that st have "k \<notin> index ` set ?gcs" by (auto simp: genIndices_def)
            with ag base [OF that(1)] show ?thesis by simp
          qed
          with gi lr len [of i] show ?thesis by auto
        qed
        have s3: "mset (map fst evals) = mset (genIndices ?cols)" if "\<exists>kvPairs. res = Inr kvPairs"
          using that ok n ms by simp
        from s1 s2 s3 show ?thesis by blast
      qed
    qed
  qed
qed


theorem generated_columns_evaluated_last_in_offset_order_witness:
  "NewTableKVEncoder exampleKvEnv exampleTable
     = Inr (exampleTable\<lparr>genCols := [\<lparr>index = 0, expr = 2\<rparr>, \<lparr>index = Suc 0, expr = Suc 0\<rparr>]\<rparr>)
   \<and> Encode exampleKvEnv (exampleTable\<lparr>genCols := [\<lparr>index = 0, expr = 2\<rparr>, \<lparr>index = Suc 0, expr = Suc 0\<rparr>]\<rparr>)
        [IntDatum 5] 1 [- 1, - 1, 0, - 1]
       = (Inr [], [(0, [OtherDatum 0, OtherDatum 0, IntDatum 5, IntDatum 1]),
                   (Suc 0, [IntDatum 6, OtherDatum 0, IntDatum 5, IntDatum 1])])
   \<and> sorted (map (\<lambda>(i, r). Offset (exampleCols ! i))
        [(0, [OtherDatum 0, OtherDatum 0, IntDatum 5, IntDatum 1]),
         (Suc 0, [IntDatum 6, OtherDatum 0, IntDatum 5, IntDatum 1])])
   \<and> genIndices exampleCols = [0, Suc 0]
   \<and> getActualDatum exampleKvEnv exampleTable 1 2 (theDatum [IntDatum 5] [- 1, - 1, 0, - 1] 2)
       = Inr (IntDatum 5)"
  using generated_columns_evaluated_last_in_offset_order
      [where env = exampleKvEnv and tbl = exampleTable
        and kvcodec = "exampleTable\<lparr>genCols := [\<lparr>index = 0, expr = 2\<rparr>, \<lparr>index = Suc 0, expr = Suc 0\<rparr>]\<rparr>"
        and row = "[IntDatum 5]" and rowID = 1 and perm = "[- 1, - 1, 0, - 1]" and res = "Inr []"
        and evals = "[(0, [OtherDatum 0, OtherDatum 0, IntDatum 5, IntDatum 1]),
                      (Suc 0, [IntDatum 6, OtherDatum 0, IntDatum 5, IntDatum 1])]"]
  by (simp add: example_NewTableKVEncoder example_Encode)
    (simp add: genIndices_def getActualDatum_def theDatum_def isAutoIncCol_def isAutoRandomCol_def
      exampleTable_def exampleCols_def exampleKvEnv_def upt_rec Let_def)

end
